theory Spec2Isabelle
  imports Complex_Main
begin

section \<open>Numbers\<close>

text \<open>
  The scripts compute on NumPy double-precision arrays. A value is modelled as either a
  real number or NaN. Rounding, overflow and the two infinities are abstracted away: a
  finite value is an exact real, so "finite" below means "not NaN". The arithmetic
  operations are the IEEE ones under that abstraction: an operation with a NaN operand
  is NaN, every comparison with NaN is false, and \<open>!=\<close> with NaN is true.
\<close>

datatype pyfloat = Fin real | NaN

instantiation pyfloat :: "{comm_monoid_add, minus, uminus, times}"
begin

definition zero_pyfloat :: pyfloat where
  "zero_pyfloat = Fin 0"

definition plus_pyfloat :: "pyfloat \<Rightarrow> pyfloat \<Rightarrow> pyfloat" where
  "plus_pyfloat a b = (case (a, b) of (Fin x, Fin y) \<Rightarrow> Fin (x + y) | _ \<Rightarrow> NaN)"

definition minus_pyfloat :: "pyfloat \<Rightarrow> pyfloat \<Rightarrow> pyfloat" where
  "minus_pyfloat a b = (case (a, b) of (Fin x, Fin y) \<Rightarrow> Fin (x - y) | _ \<Rightarrow> NaN)"

definition uminus_pyfloat :: "pyfloat \<Rightarrow> pyfloat" where
  "uminus_pyfloat a = (case a of Fin x \<Rightarrow> Fin (- x) | NaN \<Rightarrow> NaN)"

definition times_pyfloat :: "pyfloat \<Rightarrow> pyfloat \<Rightarrow> pyfloat" where
  "times_pyfloat a b = (case (a, b) of (Fin x, Fin y) \<Rightarrow> Fin (x * y) | _ \<Rightarrow> NaN)"

instance
proof
  fix a b c :: pyfloat
  show "a + b + c = a + (b + c)"
    by (cases a; cases b; cases c) (simp_all add: plus_pyfloat_def)
  show "a + b = b + a"
    by (cases a; cases b) (simp_all add: plus_pyfloat_def)
  show "0 + a = a"
    by (cases a) (simp_all add: plus_pyfloat_def zero_pyfloat_def)
qed

end

text \<open>Python's \<open>a != b\<close> and \<open>a > b\<close> on floats.\<close>

fun fne :: "pyfloat \<Rightarrow> pyfloat \<Rightarrow> bool" where
  "fne (Fin x) (Fin y) = (x \<noteq> y)"
| "fne _ _ = True"

fun fgt :: "pyfloat \<Rightarrow> pyfloat \<Rightarrow> bool" where
  "fgt (Fin x) (Fin y) = (x > y)"
| "fgt _ _ = False"

fun isnan :: "pyfloat \<Rightarrow> bool" where
  "isnan NaN = True"
| "isnan (Fin x) = False"

text \<open>The exceptions the modelled code can raise.\<close>

datatype error = IndexError | ValueError

section \<open>\<open>integrate_from_top\<close> (test_numerical_methods.py)\<close>

text \<open>
  \<^verbatim>\<open>
  n = len(z)
  q_cum = np.zeros(n)
  for i in range(n-1, 0, -1):
      dz_local = z[i] - z[i-1]
      if dz_local != 0:
          area = 0.5 * (q_tot[i-1] + q_tot[i]) * dz_local
          q_cum[i-1] = q_cum[i] + area
  return q_cum
  \<close>
  \<open>top_loop z q_tot i q_cum\<close> is the loop from the value \<open>i\<close> of the loop variable on,
  with the current contents of \<open>q_cum\<close>; the loop ends when \<open>i\<close> reaches 0. The indices
  \<open>i\<close> and \<open>i-1\<close> are always inside \<open>z\<close> and \<open>q_cum\<close> (both have length \<open>n\<close>);
  reading \<open>q_tot[i]\<close> outside \<open>q_tot\<close> raises IndexError.
\<close>

fun top_loop :: "pyfloat list \<Rightarrow> pyfloat list \<Rightarrow> nat \<Rightarrow> pyfloat list \<Rightarrow> error + pyfloat list" where
  "top_loop z q_tot i q_cum =
     (if i = 0 then Inr q_cum
      else
        let dz_local = z ! i - z ! (i - 1) in
        if fne dz_local 0 then
          (if i < length q_tot then
             let area = Fin 0.5 * (q_tot ! (i - 1) + q_tot ! i) * dz_local in
             top_loop z q_tot (i - 1) (q_cum[i - 1 := q_cum ! i + area])
           else Inl IndexError)
        else top_loop z q_tot (i - 1) q_cum)"

definition integrate_from_top :: "pyfloat list \<Rightarrow> pyfloat list \<Rightarrow> error + pyfloat list" where
  "integrate_from_top z q_tot =
     (let n = length z;
          q_cum = replicate n 0
      in top_loop z q_tot (n - 1) q_cum)"

section \<open>The convergence test (test_numerical_methods.py)\<close>

text \<open>
  \<^verbatim>\<open>
  z = np.arange(0, z_max + dz, dz)
  q_tot = A * np.exp(-z / H)
  z_top = z[-1]
  q_cum_analytical = A * H * (np.exp(-z / H) - np.exp(-z_top / H))
  q_cum_numerical = integrate_from_top(z, q_tot)
  valid_idx = q_cum_analytical > 0
  relative_error = np.abs((q_cum_numerical[valid_idx] - q_cum_analytical[valid_idx]) /
                          q_cum_analytical[valid_idx])
  max_error = np.max(relative_error)
  \<close>
  \<open>uniform_grid dz n\<close> is the grid of \<open>n\<close> points \<open>0, dz, 2 * dz, ...\<close> that
  \<open>np.arange\<close> builds. \<open>max_error\<close> takes the finite values of the numerical result;
  \<open>np.max\<close> of an empty selection raises ValueError.
\<close>

definition uniform_grid :: "real \<Rightarrow> nat \<Rightarrow> real list" where
  "uniform_grid dz n = map (\<lambda>k. real k * dz) [0..<n]"

definition exp_profile :: "real \<Rightarrow> real \<Rightarrow> real list \<Rightarrow> real list" where
  "exp_profile A H z = map (\<lambda>x. A * exp (- x / H)) z"

definition q_cum_analytical :: "real \<Rightarrow> real \<Rightarrow> real list \<Rightarrow> real list" where
  "q_cum_analytical A H z =
     (let z_top = last z
      in map (\<lambda>x. A * H * (exp (- x / H) - exp (- z_top / H))) z)"

definition max_error :: "real list \<Rightarrow> real list \<Rightarrow> error + real" where
  "max_error numerical analytical =
     (let relative_error =
            map (\<lambda>(num, ana). \<bar>(num - ana) / ana\<bar>)
              (filter (\<lambda>(num, ana). ana > 0) (zip numerical analytical))
      in if relative_error = [] then Inl ValueError else Inr (Max (set relative_error)))"

section \<open>Notions used to state the properties\<close>

text \<open>
  The specification's top index: the end of the grid that holds the larger altitude, found
  by comparing the first and the last element.
\<close>

definition top_index :: "pyfloat list \<Rightarrow> nat" where
  "top_index altitude = (if fgt (hd altitude) (last altitude) then 0 else length altitude - 1)"

text \<open>The area of the trapezoid between the grid points \<open>k\<close> and \<open>k + 1\<close>.\<close>

definition trapezoid :: "pyfloat list \<Rightarrow> pyfloat list \<Rightarrow> nat \<Rightarrow> pyfloat" where
  "trapezoid altitude rate k =
     Fin 0.5 * (rate ! k + rate ! (k + 1)) * (altitude ! (k + 1) - altitude ! k)"

text \<open>
  The sum of the trapezoid areas on the path between the top index and index \<open>i\<close>: the
  value the specification gives to \<open>result[i]\<close>, up to sign.
\<close>

definition path_sum :: "pyfloat list \<Rightarrow> pyfloat list \<Rightarrow> nat \<Rightarrow> pyfloat" where
  "path_sum altitude rate i =
     (let t = top_index altitude
      in \<Sum>k = min t i..<max t i. trapezoid altitude rate k)"

text \<open>The data model's altitude grid: strictly increasing or strictly decreasing.\<close>

definition strictly_monotonic :: "real list \<Rightarrow> bool" where
  "strictly_monotonic zs = (sorted_wrt (<) zs \<or> sorted_wrt (>) zs)"

text \<open>The trapezoid area on finite values.\<close>

abbreviation rtrap :: "real list \<Rightarrow> real list \<Rightarrow> nat \<Rightarrow> real" where
  "rtrap zs qs k \<equiv> 0.5 * (qs ! k + qs ! (k + 1)) * (zs ! (k + 1) - zs ! k)"

section \<open>Double precision\<close>

text \<open>
  The arithmetic of the scripts is IEEE 754 binary64, NumPy's \<open>float64\<close>. Wherever a
  property depends on rounding, overflow or the infinities, the code is embedded a second
  time over the type \<open>float64\<close> below: a finite value carries the real number it denotes,
  and every operation rounds its exact result to the nearest double, ties to even, with
  gradual underflow and with overflow to an infinity. A zero carries no sign: \<open>-0.0\<close> and
  \<open>0.0\<close> are one value, as they are for Python's \<open>==\<close> and for \<open>np.array_equal\<close>. The
  modelled code adds, subtracts, multiplies, negates, divides by 2.0 and tests \<open>!= 0\<close>;
  the sign of a zero changes no result of these other than the sign of a zero. Equality
  of two results below is therefore equality of the entries up to the sign of a zero, a
  NaN being equal to a NaN.
\<close>

datatype float64 = Num real | PosInf | NegInf | QNaN

text \<open>Rounding to the nearest integer, ties to the even one.\<close>

definition rne :: "real \<Rightarrow> int" where
  "rne x =
     (let f = \<lfloor>x\<rfloor>; r = x - of_int f
      in if r < 1 / 2 then f else if 1 / 2 < r then f + 1 else if even f then f else f + 1)"

text \<open>
  The binary exponent of a number, not below the exponent -1022 of the subnormal
  numbers, and the spacing of the doubles at that exponent (53 significant bits).
\<close>

definition expo :: "real \<Rightarrow> int" where
  "expo x = (if x = 0 then - 1022 else max \<lfloor>log 2 \<bar>x\<bar>\<rfloor> (- 1022))"

definition ulp :: "real \<Rightarrow> real" where
  "ulp x = 2 powi (expo x - 52)"

text \<open>The significand of the rounded number, as a multiple of the spacing.\<close>

definition mant :: "real \<Rightarrow> int" where
  "mant x = rne (\<bar>x\<bar> / ulp x)"

text \<open>
  The rounding of a real number, as if the exponent range had no upper end, and the
  double it becomes: beyond the largest double the result is an infinity.
\<close>

definition rnd :: "real \<Rightarrow> real" where
  "rnd x = sgn x * (of_int (rne (\<bar>x\<bar> / ulp x)) * ulp x)"

definition round64 :: "real \<Rightarrow> float64" where
  "round64 x =
     (let y = rnd x
      in if 2 powi 1024 \<le> \<bar>y\<bar> then (if 0 < y then PosInf else NegInf) else Num y)"

text \<open>Addition, multiplication and negation of doubles.\<close>

fun add64 :: "float64 \<Rightarrow> float64 \<Rightarrow> float64" where
  "add64 (Num x) (Num y) = round64 (x + y)"
| "add64 QNaN _ = QNaN"
| "add64 _ QNaN = QNaN"
| "add64 PosInf NegInf = QNaN"
| "add64 NegInf PosInf = QNaN"
| "add64 PosInf _ = PosInf"
| "add64 _ PosInf = PosInf"
| "add64 NegInf _ = NegInf"
| "add64 _ NegInf = NegInf"

fun signed_inf :: "real \<Rightarrow> float64" where
  "signed_inf x = (if x = 0 then QNaN else if 0 < x then PosInf else NegInf)"

fun mul64 :: "float64 \<Rightarrow> float64 \<Rightarrow> float64" where
  "mul64 (Num x) (Num y) = round64 (x * y)"
| "mul64 QNaN _ = QNaN"
| "mul64 _ QNaN = QNaN"
| "mul64 (Num x) PosInf = signed_inf x"
| "mul64 (Num x) NegInf = signed_inf (- x)"
| "mul64 PosInf (Num y) = signed_inf y"
| "mul64 NegInf (Num y) = signed_inf (- y)"
| "mul64 PosInf PosInf = PosInf"
| "mul64 PosInf NegInf = NegInf"
| "mul64 NegInf PosInf = NegInf"
| "mul64 NegInf NegInf = PosInf"

fun neg64 :: "float64 \<Rightarrow> float64" where
  "neg64 (Num x) = Num (- x)"
| "neg64 PosInf = NegInf"
| "neg64 NegInf = PosInf"
| "neg64 QNaN = QNaN"

instantiation float64 :: "{zero, plus, minus, uminus, times}"
begin

definition zero_float64 :: float64 where
  "zero_float64 = Num 0"

definition plus_float64 :: "float64 \<Rightarrow> float64 \<Rightarrow> float64" where
  "plus_float64 a b = add64 a b"

definition uminus_float64 :: "float64 \<Rightarrow> float64" where
  "uminus_float64 a = neg64 a"

definition minus_float64 :: "float64 \<Rightarrow> float64 \<Rightarrow> float64" where
  "minus_float64 a b = add64 a (neg64 b)"

definition times_float64 :: "float64 \<Rightarrow> float64 \<Rightarrow> float64" where
  "times_float64 a b = mul64 a b"

instance ..

end

text \<open>\<open>x / 2.0\<close>, the only division the modelled code performs.\<close>

fun half64 :: "float64 \<Rightarrow> float64" where
  "half64 (Num x) = round64 (x / 2)"
| "half64 v = v"

text \<open>Python's \<open>a != b\<close> and \<open>a <= b\<close> on doubles, \<open>abs\<close>, \<open>isnan\<close> and \<open>isfinite\<close>.\<close>

fun ne64 :: "float64 \<Rightarrow> float64 \<Rightarrow> bool" where
  "ne64 (Num x) (Num y) = (x \<noteq> y)"
| "ne64 PosInf PosInf = False"
| "ne64 NegInf NegInf = False"
| "ne64 _ _ = True"

fun le64 :: "float64 \<Rightarrow> float64 \<Rightarrow> bool" where
  "le64 (Num x) (Num y) = (x \<le> y)"
| "le64 QNaN _ = False"
| "le64 _ QNaN = False"
| "le64 NegInf _ = True"
| "le64 _ PosInf = True"
| "le64 _ _ = False"

fun abs64 :: "float64 \<Rightarrow> float64" where
  "abs64 (Num x) = Num \<bar>x\<bar>"
| "abs64 PosInf = PosInf"
| "abs64 NegInf = PosInf"
| "abs64 QNaN = QNaN"

fun isnan64 :: "float64 \<Rightarrow> bool" where
  "isnan64 QNaN = True"
| "isnan64 _ = False"

fun isfinite64 :: "float64 \<Rightarrow> bool" where
  "isfinite64 (Num x) = True"
| "isfinite64 _ = False"

text \<open>
  The values a \<open>float64\<close> array can hold: a finite one is a real number that the
  rounding leaves unchanged and that is below \<open>2\<^sup>1\<^sup>0\<^sup>2\<^sup>4\<close> in magnitude. \<open>doubles\<close> says it
  of a list of real numbers, and \<open>max_float\<close> is the largest of them.
\<close>

fun is_float64 :: "float64 \<Rightarrow> bool" where
  "is_float64 (Num x) = (rnd x = x \<and> \<bar>x\<bar> < 2 powi 1024)"
| "is_float64 _ = True"

definition doubles :: "real list \<Rightarrow> bool" where
  "doubles xs = list_all (\<lambda>x. is_float64 (Num x)) xs"

definition max_float :: real where
  "max_float = (2 powi 53 - 1) * 2 powi 971"

section \<open>The scripts in double precision\<close>

text \<open>
  \<open>integrate_from_top\<close> of test_numerical_methods.py, as above, on doubles.
\<close>

fun top_loop_f64 :: "float64 list \<Rightarrow> float64 list \<Rightarrow> nat \<Rightarrow> float64 list \<Rightarrow> error + float64 list" where
  "top_loop_f64 z q_tot i q_cum =
     (if i = 0 then Inr q_cum
      else
        let dz_local = z ! i - z ! (i - 1) in
        if ne64 dz_local 0 then
          (if i < length q_tot then
             let area = Num 0.5 * (q_tot ! (i - 1) + q_tot ! i) * dz_local in
             top_loop_f64 z q_tot (i - 1) (q_cum[i - 1 := q_cum ! i + area])
           else Inl IndexError)
        else top_loop_f64 z q_tot (i - 1) q_cum)"

definition integrate_from_top_f64 :: "float64 list \<Rightarrow> float64 list \<Rightarrow> error + float64 list" where
  "integrate_from_top_f64 z q_tot =
     (let n = length z;
          q_cum = replicate n 0
      in top_loop_f64 z q_tot (n - 1) q_cum)"

text \<open>
  \<open>np.diff\<close> and \<open>np.cumsum\<close> on one-dimensional arrays, and SciPy's
  \<open>cumulative_trapezoid(y, x, initial=0)\<close>: it raises ValueError on an empty \<open>y\<close> and
  when \<open>x\<close> and \<open>y\<close> differ in length, and otherwise returns \<open>initial\<close> followed by
  \<open>cumsum(d * (y[1:] + y[:-1]) / 2.0)\<close> with \<open>d = diff(x)\<close>.
\<close>

fun diff_f64 :: "float64 list \<Rightarrow> float64 list" where
  "diff_f64 (a # b # xs) = (b - a) # diff_f64 (b # xs)"
| "diff_f64 _ = []"

fun cumsum_from_f64 :: "float64 \<Rightarrow> float64 list \<Rightarrow> float64 list" where
  "cumsum_from_f64 s [] = []"
| "cumsum_from_f64 s (x # xs) = (s + x) # cumsum_from_f64 (s + x) xs"

fun cumsum_f64 :: "float64 list \<Rightarrow> float64 list" where
  "cumsum_f64 [] = []"
| "cumsum_f64 (x # xs) = x # cumsum_from_f64 x xs"

definition cumulative_trapezoid_f64 :: "float64 list \<Rightarrow> float64 list \<Rightarrow> error + float64 list" where
  "cumulative_trapezoid_f64 y x =
     (if length y = 0 then Inl ValueError
      else
        let d = diff_f64 x in
        if length d \<noteq> length y - 1 then Inl ValueError
        else
          let res = cumsum_f64 (map (\<lambda>(dk, y1, y0). half64 (dk * (y1 + y0))) (zip d (zip (tl y) (butlast y))))
          in Inr (0 # res))"

text \<open>
  \<open>integrate_from_top_v1\<close> of debug_nonuniform.py:
  \<^verbatim>\<open>
  z_flipped = np.flip(z)
  q_flipped = np.flip(q_tot)
  q_cum_flipped = integrate.cumulative_trapezoid(q_flipped, z_flipped, initial=0)
  q_cum = -np.flip(q_cum_flipped)
  \<close>
\<close>

definition integrate_from_top_v1_f64 :: "float64 list \<Rightarrow> float64 list \<Rightarrow> error + float64 list" where
  "integrate_from_top_v1_f64 z q_tot =
     (let z_flipped = rev z;
          q_flipped = rev q_tot
      in case cumulative_trapezoid_f64 q_flipped z_flipped of
           Inl e \<Rightarrow> Inl e
         | Inr q_cum_flipped \<Rightarrow> Inr (map uminus (rev q_cum_flipped)))"

text \<open>
  \<open>analytical_cumulative_manual\<close> of debug_nonuniform.py:
  \<^verbatim>\<open>
  n = len(z)
  q_cum = np.zeros(n)
  for i in range(n-2, -1, -1):
      dz_local = z[i+1] - z[i]
      if dz_local != 0:
          area = 0.5 * (q_tot[i] + q_tot[i+1]) * dz_local
          q_cum[i] = q_cum[i+1] + area
  return q_cum
  \<close>
  \<open>manual_loop_f64 z q_tot m q_cum\<close> is the loop with \<open>m\<close> iterations left, the next one
  at \<open>i = m - 1\<close>.
\<close>

fun manual_loop_f64 :: "float64 list \<Rightarrow> float64 list \<Rightarrow> nat \<Rightarrow> float64 list \<Rightarrow> error + float64 list" where
  "manual_loop_f64 z q_tot 0 q_cum = Inr q_cum"
| "manual_loop_f64 z q_tot (Suc i) q_cum =
     (let dz_local = z ! (i + 1) - z ! i in
      if ne64 dz_local 0 then
        (if i + 1 < length q_tot then
           let area = Num 0.5 * (q_tot ! i + q_tot ! (i + 1)) * dz_local in
           manual_loop_f64 z q_tot i (q_cum[i := q_cum ! (i + 1) + area])
         else Inl IndexError)
      else manual_loop_f64 z q_tot i q_cum)"

definition analytical_cumulative_manual_f64 :: "float64 list \<Rightarrow> float64 list \<Rightarrow> error + float64 list" where
  "analytical_cumulative_manual_f64 z q_tot =
     (let n = length z;
          q_cum = replicate n 0
      in manual_loop_f64 z q_tot (n - 1) q_cum)"

text \<open>
  The forward cumulative trapezoid that \<open>test_flip_cumtrapz_flip\<close> of
  verify_integration_sign.py computes by hand on its two arrays:
  \<^verbatim>\<open>
  cumtrapz_result = np.zeros_like(q_tot_flipped)
  for i in range(1, len(z_flipped)):
      dz = z_flipped[i] - z_flipped[i-1]
      cumtrapz_result[i] = cumtrapz_result[i-1] + 0.5 * (q_tot_flipped[i] + q_tot_flipped[i-1]) * dz
  \<close>
  \<open>cumtrapz_loop\<close> runs the loop over the remaining values of \<open>i\<close>; reading or writing
  index \<open>i\<close> outside the rate array raises IndexError.
\<close>

fun cumtrapz_loop :: "float64 list \<Rightarrow> float64 list \<Rightarrow> nat list \<Rightarrow> float64 list \<Rightarrow> error + float64 list" where
  "cumtrapz_loop z_flipped q_tot_flipped [] cumtrapz_result = Inr cumtrapz_result"
| "cumtrapz_loop z_flipped q_tot_flipped (i # is) cumtrapz_result =
     (let dz = z_flipped ! i - z_flipped ! (i - 1) in
      if i < length q_tot_flipped then
        cumtrapz_loop z_flipped q_tot_flipped is
          (cumtrapz_result[i := cumtrapz_result ! (i - 1)
             + Num 0.5 * (q_tot_flipped ! i + q_tot_flipped ! (i - 1)) * dz])
      else Inl IndexError)"

definition manual_cumtrapz :: "float64 list \<Rightarrow> float64 list \<Rightarrow> error + float64 list" where
  "manual_cumtrapz z_flipped q_tot_flipped =
     cumtrapz_loop z_flipped q_tot_flipped [1..<length z_flipped]
       (replicate (length q_tot_flipped) 0)"

section \<open>Notions used to state the properties in double precision\<close>

text \<open>
  The area that the loop adds between the grid points \<open>j\<close> and \<open>j + 1\<close>, and the guard
  \<open>dz_local != 0\<close> of that step.
\<close>

definition trapezoid_f64 :: "float64 list \<Rightarrow> float64 list \<Rightarrow> nat \<Rightarrow> float64" where
  "trapezoid_f64 z q j = Num 0.5 * (q ! j + q ! (j + 1)) * (z ! (j + 1) - z ! j)"

definition step_nonzero :: "float64 list \<Rightarrow> nat \<Rightarrow> bool" where
  "step_nonzero z j = ne64 (z ! (j + 1) - z ! j) 0"

text \<open>A value that is \<open>>= 0\<close>: a non-negative number or \<open>+inf\<close>.\<close>

fun nonneg64 :: "float64 \<Rightarrow> bool" where
  "nonneg64 (Num x) = (0 \<le> x)"
| "nonneg64 PosInf = True"
| "nonneg64 _ = False"

text \<open>
  The rate sum \<open>s\<close> and the step \<open>d\<close> of a trapezoid are in range when both are finite and
  either \<open>s = 0\<close>, or \<open>|s|\<close> and the exact product \<open>|s * d|\<close> are at least \<open>2\<^sup>-\<^sup>1\<^sup>0\<^sup>2\<^sup>1\<close>, twice
  the smallest normal number, and the product is at most the largest double: then
  neither \<open>0.5 * s * d\<close> nor \<open>d * s / 2.0\<close> overflows or loses bits to underflow.
\<close>

fun in_range :: "float64 \<Rightarrow> float64 \<Rightarrow> bool" where
  "in_range (Num s) (Num d) =
     (s = 0 \<or> 2 powi (- 1021) \<le> \<bar>s\<bar> \<and> 2 powi (- 1021) \<le> \<bar>s * d\<bar> \<and> \<bar>s * d\<bar> \<le> max_float)"
| "in_range _ _ = False"

text \<open>The unit roundoff of binary64 and half the smallest subnormal number.\<close>

definition unit_roundoff :: real where
  "unit_roundoff = 2 powi (- 53)"

definition half_min_subnormal :: real where
  "half_min_subnormal = 2 powi (- 1075)"

text \<open>
  The bound on the rounding error of \<open>result[i]\<close> against the exact sum of the trapezoids
  \<open>i, ..., n - 2\<close>, of which there are \<open>m = n - 1 - i\<close>: a relative part
  \<open>(1 + 2\<^sup>-\<^sup>5\<^sup>3)\<^sup>m\<^sup>+\<^sup>3 - 1\<close> on the sum of the magnitudes of the trapezoids, and an absolute part
  that covers underflow.
\<close>

definition rounding_bound :: "real list \<Rightarrow> real list \<Rightarrow> nat \<Rightarrow> real" where
  "rounding_bound zs qs i =
     ((1 + unit_roundoff) ^ (length zs - 1 - i + 3) - 1) * (\<Sum>k = i..<length zs - 1. \<bar>rtrap zs qs k\<bar>)
     + half_min_subnormal * (1 + unit_roundoff) ^ (length zs - 1 - i + 2)
         * (\<Sum>k = i..<length zs - 1. \<bar>zs ! (k + 1) - zs ! k\<bar> + 1)"

section \<open>Basic facts\<close>

lemma Fin_arith [simp]:
  "Fin x + Fin y = Fin (x + y)"
  "Fin x - Fin y = Fin (x - y)"
  "Fin x * Fin y = Fin (x * y)"
  "- Fin x = Fin (- x)"
  by (simp_all add: plus_pyfloat_def minus_pyfloat_def times_pyfloat_def uminus_pyfloat_def)

lemma NaN_arith [simp]:
  "NaN + a = NaN" "a + NaN = NaN"
  "NaN - a = NaN" "a - NaN = NaN"
  "NaN * a = NaN" "a * NaN = NaN"
  "- NaN = NaN"
  by (simp_all add: plus_pyfloat_def minus_pyfloat_def times_pyfloat_def uminus_pyfloat_def
      split: pyfloat.splits)

lemma Fin_eq_zero [simp]: "Fin x = 0 \<longleftrightarrow> x = 0" "0 = Fin x \<longleftrightarrow> x = 0"
  by (auto simp: zero_pyfloat_def)

lemma NaN_neq_zero [simp]: "NaN \<noteq> (0::pyfloat)" "(0::pyfloat) \<noteq> NaN"
  by (simp_all add: zero_pyfloat_def)

lemma fne_zero [simp]: "fne (Fin x) 0 \<longleftrightarrow> x \<noteq> 0" "fne NaN 0"
  by (simp_all add: zero_pyfloat_def)

lemma isnan_zero [simp]: "\<not> isnan 0"
  by (simp add: zero_pyfloat_def)

declare top_loop.simps [simp del]

lemma top_loop_0 [simp]: "top_loop z q_tot 0 q_cum = Inr q_cum"
  by (simp add: top_loop.simps)

lemma top_loop_Suc:
  "top_loop z q_tot (Suc j) q_cum =
     (if fne (z ! Suc j - z ! j) 0 then
        (if Suc j < length q_tot then
           top_loop z q_tot j (q_cum[j := q_cum ! Suc j + trapezoid z q_tot j])
         else Inl IndexError)
      else top_loop z q_tot j q_cum)"
  by (subst top_loop.simps) (simp add: trapezoid_def Let_def)

section \<open>The loop in closed form\<close>

lemma top_loop_closed:
  assumes "length c = length z" "i < length z" "i = 0 \<or> i < length q"
    "\<forall>k<i. fne (z ! Suc k - z ! k) 0"
  shows "top_loop z q i c =
    Inr (map (\<lambda>k. if k < i then c ! i + (\<Sum>j = k..<i. trapezoid z q j) else c ! k) [0..<length z])"
  using assms
proof (induction i arbitrary: c)
  case 0
  then show ?case using map_nth[of c] by simp
next
  case (Suc i)
  let ?c = "c[i := c ! Suc i + trapezoid z q i]"
  have len: "length ?c = length z" using Suc.prems by simp
  have step: "top_loop z q (Suc i) c = top_loop z q i ?c"
    using Suc.prems by (simp add: top_loop_Suc)
  have ih: "top_loop z q i ?c =
    Inr (map (\<lambda>k. if k < i then ?c ! i + (\<Sum>j = k..<i. trapezoid z q j) else ?c ! k) [0..<length z])"
    using Suc.prems len by (intro Suc.IH) auto
  have "map (\<lambda>k. if k < i then ?c ! i + (\<Sum>j = k..<i. trapezoid z q j) else ?c ! k) [0..<length z]
      = map (\<lambda>k. if k < Suc i then c ! Suc i + (\<Sum>j = k..<Suc i. trapezoid z q j) else c ! k) [0..<length z]"
  proof (rule map_cong[OF refl])
    fix k assume "k \<in> set [0..<length z]"
    then have k: "k < length z" by simp
    have i: "i < length c" using Suc.prems by simp
    consider "k < i" | "k = i" | "i < k" by linarith
    then show "(if k < i then ?c ! i + (\<Sum>j = k..<i. trapezoid z q j) else ?c ! k)
       = (if k < Suc i then c ! Suc i + (\<Sum>j = k..<Suc i. trapezoid z q j) else c ! k)"
    proof cases
      case 1
      then show ?thesis using i by (simp add: ac_simps)
    next
      case 2
      then show ?thesis using i by simp
    next
      case 3
      then show ?thesis by simp
    qed
  qed
  with step ih show ?case by simp
qed

lemma top_loop_keeps:
  assumes "i = 0 \<or> i < length q"
  shows "\<exists>r. top_loop z q i c = Inr r \<and> length r = length c \<and> (\<forall>k\<ge>i. r ! k = c ! k)"
  using assms
proof (induction i arbitrary: c)
  case 0
  then show ?case by simp
next
  case (Suc i)
  let ?c = "c[i := c ! Suc i + trapezoid z q i]"
  from Suc.prems have iq: "i = 0 \<or> i < length q" by auto
  show ?case
  proof (cases "fne (z ! Suc i - z ! i) 0")
    case True
    from Suc.IH[OF iq, of ?c] obtain r where
      r: "top_loop z q i ?c = Inr r" "length r = length ?c" "\<forall>k\<ge>i. r ! k = ?c ! k"
      by blast
    have "\<forall>k\<ge>Suc i. r ! k = c ! k" using r(3) by simp
    with r True Suc.prems show ?thesis by (simp add: top_loop_Suc)
  next
    case False
    from Suc.IH[OF iq, of c] obtain r where
      r: "top_loop z q i c = Inr r" "length r = length c" "\<forall>k\<ge>i. r ! k = c ! k"
      by blast
    with False show ?thesis by (simp add: top_loop_Suc)
  qed
qed

lemma integrate_from_top_closed:
  assumes "length z \<le> length q" "\<forall>k. Suc k < length z \<longrightarrow> fne (z ! Suc k - z ! k) 0"
  shows "integrate_from_top z q =
    Inr (map (\<lambda>i. \<Sum>j = i..<length z - 1. trapezoid z q j) [0..<length z])"
proof (cases "z = []")
  case True
  then show ?thesis by (simp add: integrate_from_top_def)
next
  case False
  then have n: "length z - 1 < length z" by simp
  have "top_loop z q (length z - 1) (replicate (length z) 0) =
    Inr (map (\<lambda>k. if k < length z - 1
           then replicate (length z) 0 ! (length z - 1) + (\<Sum>j = k..<length z - 1. trapezoid z q j)
           else replicate (length z) 0 ! k) [0..<length z])"
    using assms n by (intro top_loop_closed) auto
  also have "map (\<lambda>k. if k < length z - 1
           then replicate (length z) 0 ! (length z - 1) + (\<Sum>j = k..<length z - 1. trapezoid z q j)
           else replicate (length z) 0 ! k) [0..<length z]
     = map (\<lambda>i. \<Sum>j = i..<length z - 1. trapezoid z q j) [0..<length z]"
    using n by (intro map_cong[OF refl]) auto
  finally show ?thesis by (simp add: integrate_from_top_def Let_def)
qed

lemma trapezoid_Fin:
  "Suc k < length zs \<Longrightarrow> Suc k < length qs \<Longrightarrow>
   trapezoid (map Fin zs) (map Fin qs) k = Fin (rtrap zs qs k)"
  by (simp add: trapezoid_def)

lemma sum_Fin: "(\<Sum>j\<in>A. Fin (f j)) = Fin (\<Sum>j\<in>A. f j)"
  by (induction A rule: infinite_finite_induct) (simp_all add: zero_pyfloat_def)

lemma integrate_from_top_Fin:
  assumes "length zs = length qs" "\<forall>k. Suc k < length zs \<longrightarrow> zs ! k \<noteq> zs ! Suc k"
  shows "integrate_from_top (map Fin zs) (map Fin qs) =
    Inr (map (\<lambda>i. Fin (\<Sum>j = i..<length zs - 1. rtrap zs qs j)) [0..<length zs])"
proof -
  have "integrate_from_top (map Fin zs) (map Fin qs) =
    Inr (map (\<lambda>i. \<Sum>j = i..<length (map Fin zs) - 1. trapezoid (map Fin zs) (map Fin qs) j)
          [0..<length (map Fin zs)])"
    using assms by (intro integrate_from_top_closed) auto
  moreover have "(\<Sum>j = i..<length zs - 1. trapezoid (map Fin zs) (map Fin qs) j)
      = Fin (\<Sum>j = i..<length zs - 1. rtrap zs qs j)" for i
  proof -
    have "(\<Sum>j = i..<length zs - 1. trapezoid (map Fin zs) (map Fin qs) j)
        = (\<Sum>j = i..<length zs - 1. Fin (rtrap zs qs j))"
      using assms(1) by (intro sum.cong refl trapezoid_Fin) auto
    then show ?thesis by (simp only: sum_Fin)
  qed
  ultimately show ?thesis by simp
qed

section \<open>Degenerate lengths\<close>

text \<open>
  C8: for a single-element pair the result is the one-element sequence \<open>[0]\<close>, and for
  the empty pair it is the empty sequence; neither raises.
\<close>

theorem integrate_from_top_degenerate:
  "integrate_from_top [z0] [q0] = Inr [0] \<and> integrate_from_top [] [] = Inr []"
  by (simp add: integrate_from_top_def)

section \<open>Zero at the last index\<close>

lemma integrate_from_top_last_zero:
  assumes "length z \<le> length q" "z \<noteq> []"
  shows "\<exists>r. integrate_from_top z q = Inr r \<and> length r = length z \<and> r ! (length z - 1) = 0"
proof -
  from assms have "length z - 1 = 0 \<or> length z - 1 < length q"
    by (cases z) auto
  from top_loop_keeps[OF this, of z "replicate (length z) 0"] obtain r where
    r: "top_loop z q (length z - 1) (replicate (length z) 0) = Inr r"
       "length r = length (replicate (length z) (0::pyfloat))"
       "\<forall>k\<ge>length z - 1. r ! k = replicate (length z) (0::pyfloat) ! k"
    by blast
  from r(3) assms(2) have "r ! (length z - 1) = 0" by simp
  with r(1,2) show ?thesis by (simp add: integrate_from_top_def Let_def)
qed

lemma top_index_increasing:
  assumes "sorted_wrt (<) zs"
  shows "top_index (map Fin zs) = length zs - 1"
proof (cases "zs = []")
  case True then show ?thesis by (simp add: top_index_def)
next
  case False
  have "hd zs \<le> last zs"
  proof (cases "length zs - 1 = 0")
    case True
    with False show ?thesis by (simp add: hd_conv_nth last_conv_nth)
  next
    case F: False
    then have "zs ! 0 < zs ! (length zs - 1)"
      using sorted_wrt_nth_less[OF assms, of 0 "length zs - 1"] by simp
    with False show ?thesis by (simp add: hd_conv_nth last_conv_nth)
  qed
  with False show ?thesis by (simp add: top_index_def hd_map last_map)
qed

text \<open>
  C1, as the code has it: for every altitude grid and rate profile of equal length
  \<open>n \<ge> 1\<close>, whatever their values, the result at the last index \<open>n - 1\<close> is exactly
  0. The last index is the top index when the grid is stored in increasing order.
\<close>

theorem integrate_from_top_zero_at_last_index:
  assumes "length z = length q" "z \<noteq> []"
  shows "\<exists>r. integrate_from_top z q = Inr r \<and> r ! (length z - 1) = 0 \<and>
     (\<forall>zs. z = map Fin zs \<and> sorted_wrt (<) zs \<longrightarrow> r ! top_index z = 0)"
proof -
  from integrate_from_top_last_zero[of z q] assms obtain r where
    r: "integrate_from_top z q = Inr r" "r ! (length z - 1) = 0" by auto
  have "r ! top_index z = 0" if "z = map Fin zs" "sorted_wrt (<) zs" for zs
    using that r(2) top_index_increasing[of zs] by simp
  with r show ?thesis by blast
qed

text \<open>
  C1 as stated fails on a grid stored in decreasing order: the top index is 0 there, and
  the result at index 0 is the whole (negative) trapezoid sum, not 0.
\<close>

theorem zero_at_top_counterexample:
  "top_index [Fin 10, Fin 0] = 0 \<and>
   integrate_from_top [Fin 10, Fin 0] [Fin 1, Fin 1] = Inr [Fin (- 10), Fin 0] \<and>
   [Fin (- 10), Fin 0] ! top_index [Fin 10, Fin 0] \<noteq> (0::pyfloat)"
  by (simp add: integrate_from_top_def top_loop_Suc trapezoid_def top_index_def)

text \<open>The theorem at the grid \<open>[0, 10, 20, 30]\<close> with the constant rate 1.\<close>

theorem integrate_from_top_zero_at_last_index_witness:
  "length [Fin 0, Fin 10, Fin 20, Fin 30] = length [Fin 1, Fin 1, Fin 1, Fin 1] \<and>
   [Fin 0, Fin 10, Fin 20, Fin 30] \<noteq> [] \<and>
   [Fin 0, Fin 10, Fin 20, Fin 30] = map Fin [0, 10, 20, 30] \<and> sorted_wrt (<) [0, 10, 20, 30::real] \<and>
   integrate_from_top [Fin 0, Fin 10, Fin 20, Fin 30] [Fin 1, Fin 1, Fin 1, Fin 1]
     = Inr [Fin 30, Fin 20, Fin 10, Fin 0] \<and>
   [Fin 30, Fin 20, Fin 10, Fin 0] ! (length [Fin 0, Fin 10, Fin 20, Fin 30] - 1) = (0::pyfloat) \<and>
   [Fin 30, Fin 20, Fin 10, Fin 0] ! top_index [Fin 0, Fin 10, Fin 20, Fin 30] = (0::pyfloat)"
proof -
  let ?z = "[Fin 0, Fin 10, Fin 20, Fin 30]" and ?q = "[Fin 1, Fin 1, Fin 1, Fin 1]"
  have h1: "length ?z = length ?q" by simp
  have h2: "?z \<noteq> []" by simp
  have h3: "?z = map Fin [0, 10, 20, 30]" by simp
  have h4: "sorted_wrt (<) [0, 10, 20, 30::real]" by simp
  have e: "integrate_from_top ?z ?q = Inr [Fin 30, Fin 20, Fin 10, Fin 0]"
    by (simp add: integrate_from_top_def top_loop_Suc trapezoid_def)
  from integrate_from_top_zero_at_last_index[OF h1 h2] obtain r where
    r: "integrate_from_top ?z ?q = Inr r" "r ! (length ?z - 1) = 0"
       "\<forall>zs. ?z = map Fin zs \<and> sorted_wrt (<) zs \<longrightarrow> r ! top_index ?z = 0"
    by blast
  from r(1) e have req: "r = [Fin 30, Fin 20, Fin 10, Fin 0]" by simp
  from r(3)[rule_format, OF conjI[OF h3 h4]] have t: "r ! top_index ?z = 0" .
  from h1 h2 h3 h4 e r(2) t show ?thesis unfolding req by (intro conjI)
qed

section \<open>The result as trapezoid sums\<close>

lemma strictly_monotonic_adjacent:
  assumes "strictly_monotonic zs" "Suc k < length zs"
  shows "zs ! k \<noteq> zs ! Suc k"
proof -
  from assms(1) consider "sorted_wrt (<) zs" | "sorted_wrt (>) zs"
    by (auto simp: strictly_monotonic_def)
  then show ?thesis
  proof cases
    case 1
    from sorted_wrt_nth_less[OF 1, of k "Suc k"] assms(2) show ?thesis by simp
  next
    case 2
    from sorted_wrt_nth_less[OF 2, of k "Suc k"] assms(2) show ?thesis by simp
  qed
qed

lemma integrate_from_top_monotonic:
  assumes "length zs = length q" "strictly_monotonic zs"
  shows "integrate_from_top (map Fin zs) q =
    Inr (map (\<lambda>i. \<Sum>k = i..<length zs - 1. trapezoid (map Fin zs) q k) [0..<length zs])"
proof -
  have "\<forall>k. Suc k < length (map Fin zs) \<longrightarrow> fne (map Fin zs ! Suc k - map Fin zs ! k) 0"
    using strictly_monotonic_adjacent[OF assms(2)] by (auto dest: sym)
  from integrate_from_top_closed[OF _ this, of q] assms(1) show ?thesis by simp
qed

lemma path_sum_increasing:
  assumes "sorted_wrt (<) zs" "i < length zs"
  shows "path_sum (map Fin zs) q i = (\<Sum>k = i..<length zs - 1. trapezoid (map Fin zs) q k)"
  using assms top_index_increasing[OF assms(1)]
  by (simp add: path_sum_def Let_def min_def max_def)




section \<open>Errors\<close>

lemma top_loop_error_iff:
  "top_loop z q i c = Inl e \<longleftrightarrow>
     e = IndexError \<and> (\<exists>j. 0 < j \<and> j \<le> i \<and> length q \<le> j \<and> fne (z ! j - z ! (j - 1)) 0)"
proof (induction i arbitrary: c)
  case 0
  then show ?case by simp
next
  case (Suc i)
  show ?case
  proof (cases "fne (z ! Suc i - z ! i) 0")
    case True
    show ?thesis
    proof (cases "Suc i < length q")
      case lt: True
      have "(\<exists>j. 0 < j \<and> j \<le> Suc i \<and> length q \<le> j \<and> fne (z ! j - z ! (j - 1)) 0)
          \<longleftrightarrow> (\<exists>j. 0 < j \<and> j \<le> i \<and> length q \<le> j \<and> fne (z ! j - z ! (j - 1)) 0)"
        using lt by (metis le_Suc_eq not_less)
      with True lt Suc.IH show ?thesis by (simp add: top_loop_Suc)
    next
      case ge: False
      then have "\<exists>j. 0 < j \<and> j \<le> Suc i \<and> length q \<le> j \<and> fne (z ! j - z ! (j - 1)) 0"
        using True by (intro exI[of _ "Suc i"]) simp
      with True ge show ?thesis by (auto simp: top_loop_Suc)
    qed
  next
    case False
    have "(\<exists>j. 0 < j \<and> j \<le> Suc i \<and> length q \<le> j \<and> fne (z ! j - z ! (j - 1)) 0)
        \<longleftrightarrow> (\<exists>j. 0 < j \<and> j \<le> i \<and> length q \<le> j \<and> fne (z ! j - z ! (j - 1)) 0)"
      using False by (metis le_Suc_eq diff_Suc_1)
    with False Suc.IH show ?thesis by (simp add: top_loop_Suc)
  qed
qed

lemma top_loop_length:
  "top_loop z q i c = Inr r \<Longrightarrow> length r = length c"
proof (induction i arbitrary: c)
  case 0
  then show ?case by simp
next
  case (Suc i)
  then show ?case
    by (auto simp: top_loop_Suc split: if_splits)
qed

text \<open>
  C5, as the code has it: \<open>integrate_from_top\<close> checks no lengths and has no ShapeMismatch
  error. It raises nothing when the rate array is at least as long as the altitude array,
  so never on equal lengths, whatever the values (NaN, negative); entries of a longer rate
  array are ignored. Its only error is the IndexError of reading \<open>q_tot[j]\<close> past the end
  of the rate array, raised exactly when some loop step \<open>j\<close> with
  \<open>z[j] - z[j-1] != 0\<close> has \<open>j \<ge> len(q_tot)\<close>; an error carries no partial result, and
  a returned result has the length of the altitude array.
\<close>

theorem integrate_from_top_raises:
  "(length z \<le> length q \<longrightarrow> (\<exists>r. integrate_from_top z q = Inr r \<and> length r = length z)) \<and>
   (integrate_from_top z q = Inl e \<longleftrightarrow>
      e = IndexError \<and>
      (\<exists>j. 0 < j \<and> j < length z \<and> length q \<le> j \<and> fne (z ! j - z ! (j - 1)) 0)) \<and>
   (integrate_from_top z q = Inr r \<longrightarrow> length r = length z)"
proof (intro conjI impI)
  show "\<exists>r. integrate_from_top z q = Inr r \<and> length r = length z" if "length z \<le> length q"
  proof (cases "z = []")
    case True
    then show ?thesis by (simp add: integrate_from_top_def)
  next
    case False
    from integrate_from_top_last_zero[OF that False] show ?thesis by blast
  qed
  have "(\<exists>j. 0 < j \<and> j \<le> length z - 1 \<and> length q \<le> j \<and> fne (z ! j - z ! (j - 1)) 0)
      \<longleftrightarrow> (\<exists>j. 0 < j \<and> j < length z \<and> length q \<le> j \<and> fne (z ! j - z ! (j - 1)) 0)"
    by (metis One_nat_def Suc_pred le_imp_less_Suc less_Suc_eq_le less_imp_diff_less
        less_nat_zero_code not_gr_zero not_less_eq)
  then show "integrate_from_top z q = Inl e \<longleftrightarrow>
      e = IndexError \<and>
      (\<exists>j. 0 < j \<and> j < length z \<and> length q \<le> j \<and> fne (z ! j - z ! (j - 1)) 0)"
    by (simp add: integrate_from_top_def Let_def top_loop_error_iff)
  show "length r = length z" if "integrate_from_top z q = Inr r"
    using top_loop_length[of z q "length z - 1" "replicate (length z) 0" r] that
    by (simp add: integrate_from_top_def Let_def)
qed

text \<open>
  C5 as stated fails: two inputs of unequal length on which nothing is raised.
\<close>

theorem shape_mismatch_counterexample:
  "length [Fin 0, Fin 1] \<noteq> length [Fin 1, Fin 1, Fin 1] \<and>
   integrate_from_top [Fin 0, Fin 1] [Fin 1, Fin 1, Fin 1] = Inr [Fin 1, Fin 0] \<and>
   length [Fin 5] \<noteq> length ([] :: pyfloat list) \<and>
   integrate_from_top [Fin 5] [] = Inr [Fin 0]"
  by (simp add: integrate_from_top_def top_loop_Suc trapezoid_def zero_pyfloat_def)

text \<open>
  The theorem at an equal-length pair with a NaN and a negative rate, and at a rate array
  that is too short.
\<close>

theorem integrate_from_top_raises_witness:
  "length [Fin 0, Fin 1] \<le> length [NaN, Fin (- 3)] \<and>
   integrate_from_top [Fin 0, Fin 1] [NaN, Fin (- 3)] = Inr [NaN, Fin 0] \<and>
   length [NaN, Fin 0] = length [Fin 0, Fin 1] \<and>
   integrate_from_top [Fin 0, Fin 1] [Fin 1] = Inl IndexError"
proof -
  let ?z = "[Fin 0, Fin 1]" and ?q = "[NaN, Fin (- 3)]"
  have h: "length ?z \<le> length ?q" by simp
  have e: "integrate_from_top ?z ?q = Inr [NaN, Fin 0]"
    by (simp add: integrate_from_top_def top_loop_Suc trapezoid_def zero_pyfloat_def)
  from integrate_from_top_raises[of ?z ?q IndexError "[NaN, Fin 0]"] e
  have l: "length [NaN, Fin 0] = length ?z" by blast
  have ex: "\<exists>j. 0 < j \<and> j < length ?z \<and> length [Fin 1] \<le> j \<and> fne (?z ! j - ?z ! (j - 1)) 0"
    by (intro exI[of _ 1]) simp
  from integrate_from_top_raises[of ?z "[Fin 1]" IndexError] ex
  have err: "integrate_from_top ?z [Fin 1] = Inl IndexError" by blast
  from h e l err show ?thesis by (intro conjI)
qed

section \<open>Trapezoid sums of constant and linear profiles\<close>

lemma strictly_monotonic_distinct:
  "strictly_monotonic zs \<Longrightarrow> \<forall>k. Suc k < length zs \<longrightarrow> zs ! k \<noteq> zs ! Suc k"
  using strictly_monotonic_adjacent by blast

lemma telescope:
  fixes f :: "nat \<Rightarrow> real"
  assumes "i \<le> m"
  shows "(\<Sum>j = i..<m. f (Suc j) - f j) = f m - f i"
  using assms by (rule sum_Suc_diff')

lemma rtrap_constant_sum:
  assumes "i < length zs"
  shows "(\<Sum>j = i..<length zs - 1. rtrap zs (map (\<lambda>z. C) zs) j) = C * (zs ! (length zs - 1) - zs ! i)"
proof -
  have "(\<Sum>j = i..<length zs - 1. rtrap zs (map (\<lambda>z. C) zs) j)
      = (\<Sum>j = i..<length zs - 1. C * zs ! Suc j - C * zs ! j)"
  proof (intro sum.cong refl)
    fix j assume "j \<in> {i..<length zs - 1}"
    then have "j < length zs" "Suc j < length zs" by auto
    then show "rtrap zs (map (\<lambda>z. C) zs) j = C * zs ! Suc j - C * zs ! j"
      by (simp add: algebra_simps)
  qed
  also have "\<dots> = C * zs ! (length zs - 1) - C * zs ! i"
    using assms by (intro telescope[of i "length zs - 1" "\<lambda>j. C * zs ! j"]) simp
  finally show ?thesis by (simp add: algebra_simps)
qed

lemma rtrap_linear_sum:
  assumes "i < length zs"
  shows "(\<Sum>j = i..<length zs - 1. rtrap zs (map (\<lambda>z. m * z + b) zs) j)
    = (0.5 * m * (zs ! (length zs - 1))\<^sup>2 + b * zs ! (length zs - 1)) - (0.5 * m * (zs ! i)\<^sup>2 + b * zs ! i)"
proof -
  let ?F = "\<lambda>j. 0.5 * m * (zs ! j)\<^sup>2 + b * zs ! j"
  have "(\<Sum>j = i..<length zs - 1. rtrap zs (map (\<lambda>z. m * z + b) zs) j)
      = (\<Sum>j = i..<length zs - 1. ?F (Suc j) - ?F j)"
  proof (intro sum.cong refl)
    fix j assume "j \<in> {i..<length zs - 1}"
    then have "j < length zs" "Suc j < length zs" by auto
    then show "rtrap zs (map (\<lambda>z. m * z + b) zs) j = ?F (Suc j) - ?F j"
      by (simp add: field_simps power2_eq_square)
  qed
  also have "\<dots> = ?F (length zs - 1) - ?F i"
    using assms by (intro telescope[of i "length zs - 1" ?F]) simp
  finally show ?thesis .
qed

section \<open>Second-order convergence on the exponential profile\<close>

subsection \<open>Bounds on \<open>x * coth x\<close>\<close>

lemma nonneg_from_derivative:
  fixes f f' :: "real \<Rightarrow> real"
  assumes d: "\<And>t. 0 \<le> t \<Longrightarrow> (f has_field_derivative f' t) (at t)"
    and p: "\<And>t. 0 \<le> t \<Longrightarrow> 0 \<le> f' t"
    and z: "f 0 = 0" and x: "0 \<le> x"
  shows "0 \<le> f x"
proof -
  have "f 0 \<le> f x"
  proof (rule DERIV_nonneg_imp_nondecreasing[OF x])
    fix t :: real assume "0 \<le> t" "t \<le> x"
    then show "\<exists>y. (f has_field_derivative y) (at t) \<and> 0 \<le> y"
      using d[of t] p[of t] by blast
  qed
  with z show ?thesis by simp
qed

lemma sinh_le_x_cosh:
  fixes x :: real
  assumes "0 \<le> x"
  shows "0 \<le> x * cosh x - sinh x"
proof (rule nonneg_from_derivative[where f' = "\<lambda>t. t * sinh t", OF _ _ _ assms])
  fix t :: real assume "0 \<le> t"
  show "((\<lambda>x. x * cosh x - sinh x) has_field_derivative t * sinh t) (at t)"
    by (auto intro!: derivative_eq_intros)
  from \<open>0 \<le> t\<close> show "0 \<le> t * sinh t" by simp
qed simp

lemma coth_upper:
  fixes x :: real
  assumes "0 \<le> x"
  shows "0 \<le> (x\<^sup>2 / 3 + 1) * sinh x - x * cosh x"
proof (rule nonneg_from_derivative[where f' = "\<lambda>t. (t / 3) * (t * cosh t - sinh t)", OF _ _ _ assms])
  fix t :: real assume t: "0 \<le> t"
  show "((\<lambda>x. (x\<^sup>2 / 3 + 1) * sinh x - x * cosh x) has_field_derivative
       (t / 3) * (t * cosh t - sinh t)) (at t)"
    by (auto intro!: derivative_eq_intros simp: algebra_simps power2_eq_square)
  from t sinh_le_x_cosh[OF t] show "0 \<le> (t / 3) * (t * cosh t - sinh t)" by simp
qed simp

lemma coth_lower_aux1:
  fixes x :: real
  assumes "0 \<le> x"
  shows "0 \<le> 7 * x * cosh x + (x\<^sup>2 - 7) * sinh x"
proof (rule nonneg_from_derivative[where f' = "\<lambda>t. 9 * t * sinh t + t\<^sup>2 * cosh t", OF _ _ _ assms])
  fix t :: real assume t: "0 \<le> t"
  show "((\<lambda>x. 7 * x * cosh x + (x\<^sup>2 - 7) * sinh x) has_field_derivative
       9 * t * sinh t + t\<^sup>2 * cosh t) (at t)"
    by (auto intro!: derivative_eq_intros simp: algebra_simps power2_eq_square)
  from t show "0 \<le> 9 * t * sinh t + t\<^sup>2 * cosh t" by simp
qed simp

lemma coth_lower_aux2:
  fixes x :: real
  assumes "0 \<le> x"
  shows "0 \<le> (15 + 4 * x\<^sup>2) * sinh x - (15 * x - x ^ 3) * cosh x"
proof (rule nonneg_from_derivative[where
      f' = "\<lambda>t. t * (7 * t * cosh t + (t\<^sup>2 - 7) * sinh t)", OF _ _ _ assms])
  fix t :: real assume t: "0 \<le> t"
  show "((\<lambda>x. (15 + 4 * x\<^sup>2) * sinh x - (15 * x - x ^ 3) * cosh x) has_field_derivative
       t * (7 * t * cosh t + (t\<^sup>2 - 7) * sinh t)) (at t)"
    by (auto intro!: derivative_eq_intros simp: algebra_simps power2_eq_square power3_eq_cube)
  from t coth_lower_aux1[OF t] show "0 \<le> t * (7 * t * cosh t + (t\<^sup>2 - 7) * sinh t)" by simp
qed simp

lemma coth_lower:
  fixes x :: real
  assumes "0 \<le> x"
  shows "0 \<le> x * cosh x - (1 + x\<^sup>2 / 3 - x ^ 4 / 45) * sinh x"
proof (rule nonneg_from_derivative[where
      f' = "\<lambda>t. (t / 45) * ((15 + 4 * t\<^sup>2) * sinh t - (15 * t - t ^ 3) * cosh t)", OF _ _ _ assms])
  fix t :: real assume t: "0 \<le> t"
  show "((\<lambda>x. x * cosh x - (1 + x\<^sup>2 / 3 - x ^ 4 / 45) * sinh x) has_field_derivative
       (t / 45) * ((15 + 4 * t\<^sup>2) * sinh t - (15 * t - t ^ 3) * cosh t)) (at t)"
    by (auto intro!: derivative_eq_intros simp: field_simps power2_eq_square power3_eq_cube power4_eq_xxxx)
  from t coth_lower_aux2[OF t]
  show "0 \<le> (t / 45) * ((15 + 4 * t\<^sup>2) * sinh t - (15 * t - t ^ 3) * cosh t)" by simp
qed simp

lemma coth_bounds:
  fixes x :: real
  assumes "0 < x"
  shows "x\<^sup>2 / 3 - x ^ 4 / 45 \<le> x * cosh x / sinh x - 1" "x * cosh x / sinh x - 1 \<le> x\<^sup>2 / 3"
proof -
  have s: "0 < sinh x" using assms by simp
  have x0: "0 \<le> x" using assms by simp
  from coth_lower[OF x0] have "(1 + x\<^sup>2 / 3 - x ^ 4 / 45) * sinh x \<le> x * cosh x" by simp
  then have "1 + x\<^sup>2 / 3 - x ^ 4 / 45 \<le> x * cosh x / sinh x"
    using s by (simp add: pos_le_divide_eq)
  then show "x\<^sup>2 / 3 - x ^ 4 / 45 \<le> x * cosh x / sinh x - 1" by linarith
  from coth_upper[OF x0] have "x * cosh x \<le> (x\<^sup>2 / 3 + 1) * sinh x" by simp
  then have "x * cosh x / sinh x \<le> x\<^sup>2 / 3 + 1"
    using s by (simp add: pos_divide_le_eq)
  then show "x * cosh x / sinh x - 1 \<le> x\<^sup>2 / 3" by linarith
qed

lemma coth_exp:
  fixes x :: real
  assumes "0 < x"
  shows "(1 + exp (- (2 * x))) / (1 - exp (- (2 * x))) = cosh x / sinh x"
proof -
  have e: "exp (- (2 * x)) = exp (- x) * exp (- x)" by (simp add: exp_add[symmetric])
  have i: "exp x * exp (- x) = 1" by (simp add: exp_minus_inverse)
  have d1: "1 - exp (- (2 * x)) \<noteq> 0" using assms by simp
  have d2: "sinh x \<noteq> 0" using assms by simp
  have "(1 + exp (- (2 * x))) * sinh x = cosh x * (1 - exp (- (2 * x)))"
    unfolding e cosh_field_def sinh_field_def using i by (simp add: algebra_simps)
  with d1 d2 show ?thesis by (simp add: frac_eq_eq)
qed

subsection \<open>The trapezoid sums of the exponential profile\<close>

lemma length_uniform_grid [simp]: "length (uniform_grid dz n) = n"
  by (simp add: uniform_grid_def)

lemma nth_uniform_grid: "k < n \<Longrightarrow> uniform_grid dz n ! k = real k * dz"
  by (simp add: uniform_grid_def)

lemma last_uniform_grid:
  assumes "0 < n"
  shows "last (uniform_grid dz n) = real (n - 1) * dz"
proof -
  have "uniform_grid dz n \<noteq> []" using assms by (simp add: uniform_grid_def)
  then have "last (uniform_grid dz n) = uniform_grid dz n ! (n - 1)"
    by (simp add: last_conv_nth)
  also have "\<dots> = real (n - 1) * dz"
    using assms by (intro nth_uniform_grid) simp
  finally show ?thesis .
qed

lemma cancel_factor:
  fixes a b X :: real
  shows "b \<noteq> 0 \<Longrightarrow> (a / b) * (b * X) = a * X"
  by simp

lemma uniform_grid_increasing: "0 < dz \<Longrightarrow> sorted_wrt (<) (uniform_grid dz n)"
  by (simp add: sorted_wrt_iff_nth_less nth_uniform_grid)

lemma exp_step:
  fixes dz H :: real
  assumes "H \<noteq> 0"
  shows "exp (- (real (Suc k) * dz) / H) = exp (- dz / H) * exp (- (real k * dz) / H)"
proof -
  have "- (real (Suc k) * dz) / H = - dz / H + - (real k * dz) / H"
    using assms by (simp add: field_simps)
  then show ?thesis by (simp only: exp_add)
qed

lemma rtrap_exponential:
  fixes A H dz :: real
  assumes "0 < H" "0 < dz" "Suc k < n"
  defines "\<rho> \<equiv> exp (- dz / H)"
  shows "rtrap (uniform_grid dz n) (exp_profile A H (uniform_grid dz n)) k
    = (dz / 2 * (1 + \<rho>) / (1 - \<rho>)) * (A * exp (- (real k * dz) / H) - A * exp (- (real (Suc k) * dz) / H))"
proof -
  have \<rho>: "\<rho> < 1" using assms by (simp add: \<rho>_def)
  then have d: "1 - \<rho> \<noteq> 0" by simp
  have k: "k < n" using assms(3) by simp
  have s: "exp (- (real (Suc k) * dz) / H) = \<rho> * exp (- (real k * dz) / H)"
    unfolding \<rho>_def using assms(1) by (intro exp_step) simp
  have z: "uniform_grid dz n ! (k + 1) - uniform_grid dz n ! k = dz"
    using assms(3) k by (simp add: nth_uniform_grid algebra_simps)
  have q: "exp_profile A H (uniform_grid dz n) ! k = A * exp (- (real k * dz) / H)"
       "exp_profile A H (uniform_grid dz n) ! (k + 1) = A * exp (- (real (Suc k) * dz) / H)"
    using assms(3) k by (simp_all add: exp_profile_def nth_uniform_grid)
  have "(dz / 2 * (1 + \<rho>) / (1 - \<rho>)) * (A * exp (- (real k * dz) / H) - A * exp (- (real (Suc k) * dz) / H))
      = (dz / 2 * (1 + \<rho>) / (1 - \<rho>)) * ((1 - \<rho>) * (A * exp (- (real k * dz) / H)))"
    unfolding s by (simp add: algebra_simps)
  also have "\<dots> = dz / 2 * (1 + \<rho>) * (A * exp (- (real k * dz) / H))"
    by (rule cancel_factor[OF d])
  also have "\<dots> = 0.5 * (A * exp (- (real k * dz) / H) + A * exp (- (real (Suc k) * dz) / H)) * dz"
    unfolding s by (simp add: algebra_simps)
  finally show ?thesis unfolding z q by simp
qed

lemma tail_sum_exponential:
  fixes A H dz :: real
  assumes "0 < H" "0 < dz" "i < n"
  shows "(\<Sum>k = i..<n - 1. rtrap (uniform_grid dz n) (exp_profile A H (uniform_grid dz n)) k)
    = (dz / 2 * (1 + exp (- dz / H)) / (1 - exp (- dz / H)))
        * (A * exp (- (real i * dz) / H) - A * exp (- (real (n - 1) * dz) / H))"
proof -
  let ?c = "dz / 2 * (1 + exp (- dz / H)) / (1 - exp (- dz / H))"
  let ?q = "\<lambda>k. A * exp (- (real k * dz) / H)"
  have "(\<Sum>k = i..<n - 1. rtrap (uniform_grid dz n) (exp_profile A H (uniform_grid dz n)) k)
      = (\<Sum>k = i..<n - 1. ?c * (?q k - ?q (Suc k)))"
    by (intro sum.cong refl rtrap_exponential[OF assms(1,2)]) auto
  also have "\<dots> = ?c * (\<Sum>k = i..<n - 1. ?q k - ?q (Suc k))"
    by (simp only: sum_distrib_left)
  also have "(\<Sum>k = i..<n - 1. ?q k - ?q (Suc k)) = - (\<Sum>k = i..<n - 1. ?q (Suc k) - ?q k)"
    by (simp add: sum_negf[symmetric])
  also have "(\<Sum>k = i..<n - 1. ?q (Suc k) - ?q k) = ?q (n - 1) - ?q i"
    using assms(3) by (intro sum_Suc_diff') simp
  finally show ?thesis by simp
qed

lemma q_cum_analytical_nth:
  assumes "i < n"
  shows "q_cum_analytical A H (uniform_grid dz n) ! i
    = H * (A * exp (- (real i * dz) / H) - A * exp (- (real (n - 1) * dz) / H))"
proof -
  from assms have n: "0 < n" by simp
  have "q_cum_analytical A H (uniform_grid dz n) ! i
      = A * H * (exp (- (uniform_grid dz n ! i) / H) - exp (- last (uniform_grid dz n) / H))"
    using assms by (simp add: q_cum_analytical_def Let_def)
  also have "\<dots> = A * H * (exp (- (real i * dz) / H) - exp (- (real (n - 1) * dz) / H))"
    by (simp only: last_uniform_grid[OF n] nth_uniform_grid[OF assms])
  also have "\<dots> = H * (A * exp (- (real i * dz) / H) - A * exp (- (real (n - 1) * dz) / H))"
    by (simp only: algebra_simps)
  finally show ?thesis .
qed

lemma exp_profile_decreasing:
  fixes A H dz :: real
  assumes "0 < A" "0 < H" "0 < dz" "i < j"
  shows "A * exp (- (real j * dz) / H) < A * exp (- (real i * dz) / H)"
proof -
  have "real i * dz < real j * dz" using assms by simp
  then have "- (real j * dz) / H < - (real i * dz) / H"
    using assms(2) by (simp add: divide_strict_right_mono)
  with assms(1) show ?thesis by simp
qed

lemma coth_ge_one:
  fixes x :: real
  assumes "0 < x"
  shows "1 \<le> x * cosh x / sinh x"
proof -
  from sinh_le_x_cosh[of x] assms have "sinh x \<le> x * cosh x" by simp
  moreover have "0 < sinh x" using assms by simp
  ultimately show ?thesis by (simp add: pos_le_divide_eq)
qed

lemma max_error_exponential:
  fixes A H dz :: real
  assumes "0 < A" "0 < H" "0 < dz" "2 \<le> n"
  shows "\<exists>r. integrate_from_top (map Fin (uniform_grid dz n))
               (map Fin (exp_profile A H (uniform_grid dz n))) = Inr (map Fin r) \<and>
    max_error r (q_cum_analytical A H (uniform_grid dz n))
      = Inr (dz / (2 * H) * cosh (dz / (2 * H)) / sinh (dz / (2 * H)) - 1)"
proof -
  let ?z = "uniform_grid dz n"
  let ?c = "dz / 2 * (1 + exp (- dz / H)) / (1 - exp (- dz / H))"
  let ?q = "\<lambda>k. A * exp (- (real k * dz) / H)"
  let ?x = "dz / (2 * H)"
  let ?E = "?x * cosh ?x / sinh ?x - 1"
  let ?num = "\<lambda>i. \<Sum>k = i..<n - 1. rtrap ?z (exp_profile A H ?z) k"
  let ?ana = "\<lambda>i. H * (?q i - ?q (n - 1))"
  let ?r = "map ?num [0..<n]"
  have x: "0 < ?x" using assms by simp
  have mono: "strictly_monotonic ?z"
    using uniform_grid_increasing[OF assms(3)] by (simp add: strictly_monotonic_def)
  have run: "integrate_from_top (map Fin ?z) (map Fin (exp_profile A H ?z)) = Inr (map Fin ?r)"
    using integrate_from_top_Fin[OF _ strictly_monotonic_distinct[OF mono], of "exp_profile A H ?z"]
    by (simp add: exp_profile_def comp_def)
  have cH: "?c / H = ?x * cosh ?x / sinh ?x"
  proof -
    have "- dz / H = - (2 * ?x)" using assms(2) by simp
    then have t: "(1 + exp (- dz / H)) / (1 - exp (- dz / H)) = cosh ?x / sinh ?x"
      using coth_exp[OF x] by simp
    have "?c = dz / 2 * ((1 + exp (- dz / H)) / (1 - exp (- dz / H)))"
      by (simp only: times_divide_eq_right)
    also have "\<dots> = dz / 2 * (cosh ?x / sinh ?x)"
      by (simp only: t)
    finally have "?c / H = (dz / 2 * (cosh ?x / sinh ?x)) / H" by simp
    also have "\<dots> = ?x * cosh ?x / sinh ?x"
      by (simp add: field_simps)
    finally show ?thesis .
  qed
  have E0: "0 \<le> ?E"
    using coth_ge_one[OF x] by linarith
  have ana: "q_cum_analytical A H ?z = map ?ana [0..<n]"
  proof (rule nth_equalityI)
    show "length (q_cum_analytical A H ?z) = length (map ?ana [0..<n])"
      by (simp add: q_cum_analytical_def Let_def)
    fix i assume "i < length (q_cum_analytical A H ?z)"
    then have i: "i < n" by (simp add: q_cum_analytical_def Let_def)
    have "map ?ana [0..<n] ! i = ?ana i" using i by simp
    with q_cum_analytical_nth[OF i, of A H dz]
    show "q_cum_analytical A H ?z ! i = map ?ana [0..<n] ! i" by (simp only:)
  qed
  have valid: "0 < ?ana i \<longleftrightarrow> i < n - 1" if "i < n" for i
  proof (cases "i < n - 1")
    case True
    from exp_profile_decreasing[OF assms(1-3) True] assms(2) show ?thesis using True by simp
  next
    case False
    with that have "i = n - 1" by simp
    then show ?thesis by simp
  qed
  have err: "\<bar>(?num i - ?ana i) / ?ana i\<bar> = ?E" if "i < n - 1" for i
  proof -
    from that have i: "i < n" by simp
    have pos: "0 < ?ana i" using valid[OF i] that by simp
    then have d: "?q i - ?q (n - 1) \<noteq> 0" by auto
    have "?num i = ?c * (?q i - ?q (n - 1))"
      by (rule tail_sum_exponential[OF assms(2,3) i])
    then have "(?num i - ?ana i) / ?ana i = (?c - H) * (?q i - ?q (n - 1)) / (H * (?q i - ?q (n - 1)))"
      by (simp add: algebra_simps)
    also have "\<dots> = (?c - H) / H" using d by simp
    also have "\<dots> = ?c / H - 1" using assms(2) by (simp add: diff_divide_distrib)
    finally have "(?num i - ?ana i) / ?ana i = ?E" using cH by simp
    with E0 show ?thesis by simp
  qed
  have zipped: "zip ?r (map ?ana [0..<n]) = map (\<lambda>i. (?num i, ?ana i)) [0..<n]"
    by (simp add: zip_map_map zip_same_conv_map comp_def)
  have "filter (\<lambda>(num, ana). ana > 0) (map (\<lambda>i. (?num i, ?ana i)) [0..<n])
      = map (\<lambda>i. (?num i, ?ana i)) (filter (\<lambda>i. 0 < ?ana i) [0..<n])"
    by (simp add: filter_map comp_def)
  also have "filter (\<lambda>i. 0 < ?ana i) [0..<n] = [0..<n - 1]"
  proof -
    have split: "[0..<n] = [0..<n - 1] @ [n - 1]"
      using assms(4) by (metis One_nat_def Suc_pred less_le_trans pos2 upt_Suc_append zero_le)
    have "filter (\<lambda>i. 0 < ?ana i) [0..<n] = filter (\<lambda>i. i < n - 1) [0..<n]"
      by (rule filter_cong[OF refl]) (use valid in auto)
    also have "\<dots> = filter (\<lambda>i. i < n - 1) ([0..<n - 1] @ [n - 1])"
      by (subst split) (rule refl)
    also have "\<dots> = [0..<n - 1]"
      by simp
    finally show ?thesis .
  qed
  finally have filt: "filter (\<lambda>(num, ana). ana > 0) (zip ?r (map ?ana [0..<n]))
      = map (\<lambda>i. (?num i, ?ana i)) [0..<n - 1]"
    by (simp only: zipped)
  have rel: "map (\<lambda>(num, ana). \<bar>(num - ana) / ana\<bar>) (map (\<lambda>i. (?num i, ?ana i)) [0..<n - 1])
      = replicate (n - 1) ?E"
  proof -
    have "map (\<lambda>(num, ana). \<bar>(num - ana) / ana\<bar>) (map (\<lambda>i. (?num i, ?ana i)) [0..<n - 1])
        = map (\<lambda>i. ?E) [0..<n - 1]"
      unfolding map_map by (rule map_cong[OF refl]) (use err in auto)
    then show ?thesis by (simp add: map_replicate_const)
  qed
  have ne: "replicate (n - 1) ?E \<noteq> []" using assms(4) by simp
  have mx: "Max (set (replicate (n - 1) ?E)) = ?E" using assms(4) by simp
  have "max_error ?r (q_cum_analytical A H ?z) = Inr ?E"
    unfolding max_error_def ana Let_def filt rel using ne mx by simp
  with run show ?thesis by blast
qed

subsection \<open>Halving the step\<close>

lemma trapezoid_error_bounds:
  fixes u :: real
  assumes "0 < u"
  defines "x \<equiv> u / 2"
  shows "u\<^sup>2 / 12 - u ^ 4 / 720 \<le> x * cosh x / sinh x - 1"
    and "x * cosh x / sinh x - 1 \<le> u\<^sup>2 / 12"
proof -
  have x: "0 < x" using assms by simp
  have a: "x\<^sup>2 / 3 = u\<^sup>2 / 12" by (simp add: x_def power2_eq_square)
  have b: "x ^ 4 / 45 = u ^ 4 / 720" by (simp add: x_def power4_eq_xxxx)
  from coth_bounds[OF x] show "u\<^sup>2 / 12 - u ^ 4 / 720 \<le> x * cosh x / sinh x - 1"
    and "x * cosh x / sinh x - 1 \<le> u\<^sup>2 / 12"
    unfolding a b by simp_all
qed

lemma halving_ratio_bounds:
  fixes e e' u :: real
  assumes u: "0 < u" "u\<^sup>2 < 240"
    and e0: "0 \<le> e"
    and e: "u\<^sup>2 / 12 - u ^ 4 / 720 \<le> e" "e \<le> u\<^sup>2 / 12"
    and e': "(u / 2)\<^sup>2 / 12 - (u / 2) ^ 4 / 720 \<le> e'" "e' \<le> (u / 2)\<^sup>2 / 12"
  shows "0 < e'" "4 - u\<^sup>2 / 15 \<le> e / e'" "e / e' \<le> 4 / (1 - u\<^sup>2 / 240)"
proof -
  define a where "a = u\<^sup>2 / 48"
  define d where "d = 1 - u\<^sup>2 / 240"
  have a: "0 < a" using u(1) by (simp add: a_def)
  have d: "0 < d" using u(2) by (simp add: d_def)
  have lo': "a * d \<le> e'"
  proof -
    have "(u / 2)\<^sup>2 / 12 - (u / 2) ^ 4 / 720 = a * d"
      unfolding a_def d_def by (simp add: power2_eq_square power4_eq_xxxx field_simps)
    with e'(1) show ?thesis by simp
  qed
  have hi': "e' \<le> a"
  proof -
    have "(u / 2)\<^sup>2 / 12 = a" by (simp add: a_def power2_eq_square)
    with e'(2) show ?thesis by simp
  qed
  have hi: "e \<le> 4 * a" using e(2) by (simp add: a_def)
  have lo: "a * (4 - u\<^sup>2 / 15) \<le> e"
  proof -
    have "u\<^sup>2 / 12 - u ^ 4 / 720 = a * (4 - u\<^sup>2 / 15)"
      unfolding a_def by (simp add: power2_eq_square power4_eq_xxxx field_simps)
    with e(1) show ?thesis by simp
  qed
  have ad: "0 < a * d" using a d by simp
  with lo' show e'pos: "0 < e'" by linarith
  show "4 - u\<^sup>2 / 15 \<le> e / e'"
  proof (cases "0 \<le> 4 - u\<^sup>2 / 15")
    case True
    have "(4 - u\<^sup>2 / 15) * e' \<le> (4 - u\<^sup>2 / 15) * a"
      using True hi' by (rule mult_left_mono[rotated])
    also have "\<dots> \<le> e" using lo by (simp add: mult.commute)
    finally show ?thesis using e'pos by (simp add: pos_le_divide_eq)
  next
    case False
    have "0 \<le> e / e'" using e0 e'pos by simp
    with False show ?thesis by linarith
  qed
  show "e / e' \<le> 4 / (1 - u\<^sup>2 / 240)"
  proof -
    have a4: "0 \<le> 4 * a" using a by simp
    have "e / e' \<le> (4 * a) / (a * d)"
      by (rule frac_le[OF a4 hi ad lo'])
    also have "\<dots> = 4 / d" using a by simp
    finally show ?thesis by (simp add: d_def)
  qed
qed



section \<open>Facts of double precision\<close>

declare power_int_numeral [simp del] power_int_numeral_neg_numeral [simp del]

lemma two_powi_add: "(2::real) powi (a + b) = 2 powi a * 2 powi b"
  by (simp add: power_int_add)

lemma two_powi_diff: "(2::real) powi (a - b) = 2 powi a / 2 powi b"
  by (simp add: power_int_diff)

lemma two_powi_nat: "0 \<le> j \<Longrightarrow> (2::real) powi j = of_int (2 ^ nat j)"
  by (simp add: power_int_def)

lemma two_powi_pos [simp]: "0 < (2::real) powi k" "0 \<le> (2::real) powi k" "(2::real) powi k \<noteq> 0"
  "\<not> (2::real) powi k \<le> 0" "\<not> (2::real) powi k < 0"
  by (simp_all add: not_le not_less)

lemma two_powi_less_iff [simp]: "(2::real) powi a < 2 powi b \<longleftrightarrow> a < b"
proof
  assume "(2::real) powi a < 2 powi b"
  then show "a < b" using power_int_increasing[of b a "2::real"] by (cases "a < b") auto
next
  assume "a < b"
  then show "(2::real) powi a < 2 powi b" by (intro power_int_strict_increasing) simp_all
qed

lemma two_powi_le_iff [simp]: "(2::real) powi a \<le> 2 powi b \<longleftrightarrow> a \<le> b"
  using two_powi_less_iff[of b a] by (simp only: not_less[symmetric])

lemma two_powi_half: "(2::real) powi k / 2 = 2 powi (k - 1)"
  by (simp add: power_int_diff)

lemma two_powi_double: "2 * (2::real) powi k = 2 powi (k + 1)"
  by (simp add: power_int_add)

lemma rne_of_int [simp]: "rne (of_int n) = n"
  by (simp add: rne_def)

lemma rne_0 [simp]: "rne 0 = 0"
  using rne_of_int[of 0] by simp

lemma rne_bounds: "\<lfloor>x\<rfloor> \<le> rne x" "rne x \<le> \<lfloor>x\<rfloor> + 1"
  by (simp_all add: rne_def Let_def)

lemma rne_mono:
  assumes "x \<le> y"
  shows "rne x \<le> rne y"
proof (cases "\<lfloor>x\<rfloor> < \<lfloor>y\<rfloor>")
  case True
  with rne_bounds(2)[of x] rne_bounds(1)[of y] show ?thesis by linarith
next
  case False
  with assms have f: "\<lfloor>x\<rfloor> = \<lfloor>y\<rfloor>" by (simp add: floor_mono order_antisym)
  with assms have "x - of_int \<lfloor>x\<rfloor> \<le> y - of_int \<lfloor>y\<rfloor>" by simp
  then show ?thesis unfolding rne_def Let_def f by auto
qed

lemma rne_ge: "of_int a \<le> x \<Longrightarrow> a \<le> rne x"
  using rne_mono[of "of_int a" x] by simp

lemma rne_le: "x \<le> of_int b \<Longrightarrow> rne x \<le> b"
  using rne_mono[of x "of_int b"] by simp

lemma rne_error: "\<bar>of_int (rne x) - x\<bar> \<le> 1 / 2"
proof -
  have "of_int \<lfloor>x\<rfloor> \<le> x" "x < of_int \<lfloor>x\<rfloor> + 1" by linarith+
  then show ?thesis unfolding rne_def Let_def by auto
qed

lemma rne_eqI:
  assumes "of_int m - 1 / 2 < x" "x < of_int m + 1 / 2"
  shows "rne x = m"
proof -
  have "\<bar>of_int (rne x) - x\<bar> \<le> 1 / 2" by (rule rne_error)
  with assms have "of_int (rne x) < (of_int m :: real) + 1" "(of_int m :: real) - 1 < of_int (rne x)"
    by linarith+
  then have "rne x < m + 1" "m - 1 < rne x" by linarith+
  then show ?thesis by simp
qed

lemma ulp_pos [simp]: "0 < ulp x"
  by (simp add: ulp_def)

lemma ulp_neq0 [simp]: "ulp x \<noteq> 0"
  by (simp add: ulp_def)

lemma ulp_minus [simp]: "ulp (- x) = ulp x"
  by (simp add: ulp_def expo_def)

lemma expo_ge [simp]: "- 1022 \<le> expo x"
  by (simp add: expo_def)

lemma two_powr_int: "(2::real) powr real_of_int k = 2 powi k"
  by (simp add: powr_real_of_int')

lemma two_powr_int_Suc: "(2::real) powr (real_of_int k + 1) = 2 powi (k + 1)"
  using two_powr_int[of "k + 1"] by simp

lemma floor_log2_spec:
  fixes x :: real
  assumes "0 < x"
  shows "2 powi \<lfloor>log 2 x\<rfloor> \<le> x" "x < 2 powi (\<lfloor>log 2 x\<rfloor> + 1)"
proof -
  have "2 powr of_int \<lfloor>log 2 x\<rfloor> \<le> x \<and> x < 2 powr of_int (\<lfloor>log 2 x\<rfloor> + 1)"
    using floor_log_eq_powr_iff[of x 2 "\<lfloor>log 2 x\<rfloor>"] assms by simp
  then show "2 powi \<lfloor>log 2 x\<rfloor> \<le> x" "x < 2 powi (\<lfloor>log 2 x\<rfloor> + 1)"
    by (simp_all add: two_powr_int two_powr_int_Suc)
qed

lemma floor_log2_eq:
  fixes x :: real
  assumes "2 powi k \<le> x" "x < 2 powi (k + 1)"
  shows "\<lfloor>log 2 x\<rfloor> = k"
proof -
  have "0 < x" using assms(1) by (rule less_le_trans[rotated]) simp
  then show ?thesis
    using floor_log_eq_powr_iff[of x 2 k] assms by (simp add: two_powr_int two_powr_int_Suc)
qed

text \<open>The exponent of a number in a given binade, and of a number below the normal range.\<close>

lemma expo_eq:
  assumes "2 powi k \<le> \<bar>x\<bar>" "\<bar>x\<bar> < 2 powi (k + 1)" "- 1022 \<le> k"
  shows "expo x = k"
proof -
  have "0 < \<bar>x\<bar>" using assms(1) by (rule less_le_trans[rotated]) simp
  then show ?thesis using floor_log2_eq[OF assms(1,2)] assms(3) by (simp add: expo_def)
qed

lemma expo_small:
  assumes "\<bar>x\<bar> < 2 powi (- 1022)"
  shows "expo x = - 1022"
proof (cases "x = 0")
  case True
  then show ?thesis by (simp add: expo_def)
next
  case False
  then have "0 < \<bar>x\<bar>" by simp
  from floor_log2_spec(1)[OF this] assms have "(2::real) powi \<lfloor>log 2 \<bar>x\<bar>\<rfloor> < 2 powi (- 1022)"
    by linarith
  then have "\<lfloor>log 2 \<bar>x\<bar>\<rfloor> < - 1022"
    using power_int_increasing[of "- 1022" "\<lfloor>log 2 \<bar>x\<bar>\<rfloor>" "2::real"] by (cases "\<lfloor>log 2 \<bar>x\<bar>\<rfloor> < - 1022") auto
  then show ?thesis using False by (simp add: expo_def)
qed

lemma expo_normal:
  assumes "2 powi (- 1022) \<le> \<bar>x\<bar>"
  shows "2 powi expo x \<le> \<bar>x\<bar>" "\<bar>x\<bar> < 2 powi (expo x + 1)" "expo x = \<lfloor>log 2 \<bar>x\<bar>\<rfloor>"
proof -
  have pos: "0 < \<bar>x\<bar>" using assms by (rule less_le_trans[rotated]) simp
  have "- 1022 \<le> \<lfloor>log 2 \<bar>x\<bar>\<rfloor>"
  proof (rule ccontr)
    assume "\<not> - 1022 \<le> \<lfloor>log 2 \<bar>x\<bar>\<rfloor>"
    then have "\<lfloor>log 2 \<bar>x\<bar>\<rfloor> + 1 \<le> - 1022" by linarith
    then have "(2::real) powi (\<lfloor>log 2 \<bar>x\<bar>\<rfloor> + 1) \<le> 2 powi (- 1022)"
      by (intro power_int_increasing) simp_all
    with floor_log2_spec(2)[OF pos] assms show False by linarith
  qed
  then show e: "expo x = \<lfloor>log 2 \<bar>x\<bar>\<rfloor>" using pos by (simp add: expo_def)
  show "2 powi expo x \<le> \<bar>x\<bar>" "\<bar>x\<bar> < 2 powi (expo x + 1)"
    unfolding e using floor_log2_spec[OF pos] by simp_all
qed

lemma abs_less_expo: "\<bar>x\<bar> < 2 powi (expo x + 1)"
proof (cases "x = 0")
  case True
  then show ?thesis by simp
next
  case False
  then have "\<bar>x\<bar> < 2 powi (\<lfloor>log 2 \<bar>x\<bar>\<rfloor> + 1)" by (intro floor_log2_spec) simp
  also have "\<dots> \<le> 2 powi (expo x + 1)"
    using False by (intro power_int_increasing) (simp_all add: expo_def)
  finally show ?thesis .
qed

lemma expo_mono:
  assumes "\<bar>x\<bar> \<le> \<bar>y\<bar>"
  shows "expo x \<le> expo y"
proof (cases "x = 0")
  case True
  then show ?thesis by (simp add: expo_def)
next
  case False
  with assms have y: "y \<noteq> 0" by auto
  have "log 2 \<bar>x\<bar> \<le> log 2 \<bar>y\<bar>" using assms False by simp
  then have "\<lfloor>log 2 \<bar>x\<bar>\<rfloor> \<le> \<lfloor>log 2 \<bar>y\<bar>\<rfloor>" by (rule floor_mono)
  then show ?thesis using False y by (simp add: expo_def)
qed

lemma rnd_0 [simp]: "rnd 0 = 0"
  by (simp add: rnd_def)

lemma expo_0 [simp]: "expo 0 = - 1022"
  by (simp add: expo_def)

lemma rnd_mant: "rnd x = sgn x * (of_int (mant x) * ulp x)"
  by (simp add: rnd_def mant_def)

lemma mant_0 [simp]: "mant 0 = 0"
  by (simp add: mant_def)

lemma mant_minus [simp]: "mant (- x) = mant x"
  by (simp add: mant_def)

lemma rnd_minus: "rnd (- x) = - rnd x"
  by (simp add: rnd_mant sgn_minus)

lemma mant_nonneg [simp]: "0 \<le> mant x"
  unfolding mant_def by (rule rne_ge) (simp add: less_imp_le)

lemma mant_le: "mant x \<le> 2 ^ 53"
proof -
  have "\<bar>x\<bar> / ulp x < 2 powi (expo x + 1) / ulp x"
    using abs_less_expo[of x] by (simp add: divide_strict_right_mono)
  also have "\<dots> = 2 powi 53"
    by (simp add: ulp_def power_int_diff[symmetric])
  also have "\<dots> = of_int (2 ^ 53)" using two_powi_nat[of 53] by simp
  finally have "\<bar>x\<bar> / ulp x \<le> of_int (2 ^ 53)" by simp
  then show ?thesis unfolding mant_def by (rule rne_le)
qed

lemma mant_ge:
  assumes "2 powi (- 1022) \<le> \<bar>x\<bar>"
  shows "2 ^ 52 \<le> mant x"
proof -
  have "2 powi expo x / ulp x \<le> \<bar>x\<bar> / ulp x"
    using expo_normal(1)[OF assms] by (simp add: divide_right_mono less_imp_le)
  moreover have "2 powi expo x / ulp x = 2 powi 52"
    by (simp add: ulp_def power_int_diff[symmetric])
  moreover have "(2::real) powi 52 = of_int (2 ^ 52)" using two_powi_nat[of 52] by simp
  ultimately have "of_int (2 ^ 52) \<le> \<bar>x\<bar> / ulp x" by simp
  then show ?thesis unfolding mant_def by (rule rne_ge)
qed

lemma abs_rnd: "\<bar>rnd x\<bar> = of_int (mant x) * ulp x"
proof (cases "x = 0")
  case True
  then show ?thesis by (simp add: mant_def)
next
  case False
  then show ?thesis by (simp add: rnd_mant abs_mult less_imp_le)
qed

lemma rnd_sgn: "0 \<le> x \<Longrightarrow> 0 \<le> rnd x" "x \<le> 0 \<Longrightarrow> rnd x \<le> 0"
  by (auto simp: rnd_mant sgn_if less_imp_le mult_nonneg_nonneg)

lemma rnd_error: "\<bar>rnd x - x\<bar> \<le> ulp x / 2"
proof (cases "x = 0")
  case True
  then show ?thesis by (simp add: less_imp_le)
next
  case False
  have u: "\<bar>of_int (mant x) * ulp x - y\<bar> = \<bar>of_int (mant x) - y / ulp x\<bar> * ulp x" for y
  proof -
    have "of_int (mant x) * ulp x - y = (of_int (mant x) - y / ulp x) * ulp x"
      by (simp add: field_simps)
    then show ?thesis by (simp add: abs_mult less_imp_le)
  qed
  have "\<bar>rnd x - x\<bar> = \<bar>of_int (mant x) * ulp x - \<bar>x\<bar>\<bar>"
    using False unfolding rnd_mant by (cases "0 < x") (simp_all add: sgn_if)
  also have "\<dots> = \<bar>of_int (mant x) - \<bar>x\<bar> / ulp x\<bar> * ulp x"
    by (rule u)
  also have "\<dots> \<le> 1 / 2 * ulp x"
    unfolding mant_def by (intro mult_right_mono rne_error) (simp add: less_imp_le)
  finally show ?thesis by simp
qed

lemma two_powi_53: "(2::real) powi 53 = of_int (2 ^ 53)" "(2::real) powi 52 = of_int (2 ^ 52)"
  using two_powi_nat[of 53] two_powi_nat[of 52] by simp_all

lemma mant_le_real: "of_int (mant x) \<le> (2::real) powi 53"
  unfolding two_powi_53 using mant_le[of x] by (simp only: of_int_le_iff)

lemma mant_ge_real: "2 powi (- 1022) \<le> \<bar>x\<bar> \<Longrightarrow> (2::real) powi 52 \<le> of_int (mant x)"
  unfolding two_powi_53 using mant_ge[of x] by (simp only: of_int_le_iff)

lemma expo_le:
  assumes "\<bar>x\<bar> < 2 powi (e + 1)" "- 1022 \<le> e"
  shows "expo x \<le> e"
proof (cases "2 powi (- 1022) \<le> \<bar>x\<bar>")
  case True
  from expo_normal(1)[OF True] assms(1) have "(2::real) powi expo x < 2 powi (e + 1)" by linarith
  then show ?thesis by simp
next
  case False
  then have "expo x = - 1022" by (intro expo_small) simp
  with assms(2) show ?thesis by simp
qed

text \<open>Every \<open>m * 2\<^sup>k\<close> with \<open>|m| < 2\<^sup>5\<^sup>3\<close> and \<open>k \<ge> -1074\<close> is rounded to itself.\<close>

lemma rnd_rep:
  assumes "\<bar>m\<bar> < 2 ^ 53" "- 1074 \<le> k"
  shows "rnd (of_int m * 2 powi k) = of_int m * 2 powi k"
proof -
  define x :: real where "x = of_int m * 2 powi k"
  have ax: "\<bar>x\<bar> = of_int \<bar>m\<bar> * 2 powi k" by (simp add: x_def abs_mult)
  have "real_of_int \<bar>m\<bar> < 2 powi 53"
    unfolding two_powi_53 using assms(1) by (simp only: of_int_less_iff)
  then have "\<bar>x\<bar> < 2 powi 53 * 2 powi k" unfolding ax by (intro mult_strict_right_mono) simp_all
  also have "\<dots> = 2 powi (k + 52 + 1)" by (simp add: two_powi_add[symmetric])
  finally have "expo x \<le> k + 52" using assms(2) by (intro expo_le) simp_all
  define j where "j = k + 52 - expo x"
  have j: "0 \<le> j" using \<open>expo x \<le> k + 52\<close> by (simp add: j_def)
  have k: "(2::real) powi k = 2 powi j * 2 powi (expo x - 52)"
    by (simp add: j_def two_powi_add[symmetric])
  have "\<bar>x\<bar> / ulp x = of_int \<bar>m\<bar> * 2 powi j"
    by (simp add: ax ulp_def k)
  also have "\<dots> = of_int (\<bar>m\<bar> * 2 ^ nat j)" using two_powi_nat[OF j] by simp
  finally have "mant x = \<bar>m\<bar> * 2 ^ nat j" unfolding mant_def by (simp only: rne_of_int)
  then have "of_int (mant x) * ulp x = of_int \<bar>m\<bar> * ((2::real) powi j * 2 powi (expo x - 52))"
    using two_powi_nat[OF j] by (simp add: ulp_def)
  then have "of_int (mant x) * ulp x = \<bar>x\<bar>" by (simp only: ax k)
  then have "rnd x = sgn x * \<bar>x\<bar>" by (simp add: rnd_mant)
  then show ?thesis unfolding x_def[symmetric] by (simp add: sgn_mult_abs)
qed

lemma rnd_rep_le:
  assumes "\<bar>m\<bar> \<le> 2 ^ 53" "- 1074 \<le> k"
  shows "rnd (of_int m * 2 powi k) = of_int m * 2 powi k"
proof (cases "\<bar>m\<bar> < 2 ^ 53")
  case True
  then show ?thesis using assms(2) by (rule rnd_rep)
next
  case False
  with assms(1) have "\<bar>m\<bar> = 2 ^ 53" by simp
  then consider "m = 2 ^ 53" | "m = - (2 ^ 53)" by (auto simp: abs_if split: if_splits)
  then show ?thesis
  proof cases
    case 1
    have "of_int m * (2::real) powi k = of_int (2 ^ 52) * 2 powi (k + 1)"
      by (simp add: 1 two_powi_double[symmetric])
    moreover have "rnd (of_int (2 ^ 52) * 2 powi (k + 1)) = of_int (2 ^ 52) * 2 powi (k + 1)"
      using assms(2) by (intro rnd_rep) simp_all
    ultimately show ?thesis by simp
  next
    case 2
    have "of_int m * (2::real) powi k = of_int (- (2 ^ 52)) * 2 powi (k + 1)"
      by (simp add: 2 two_powi_double[symmetric])
    moreover have "rnd (of_int (- (2 ^ 52)) * 2 powi (k + 1)) = of_int (- (2 ^ 52)) * 2 powi (k + 1)"
      using assms(2) by (intro rnd_rep) simp_all
    ultimately show ?thesis by simp
  qed
qed

text \<open>The shape of a rounded value.\<close>

lemma rnd_shape:
  "\<exists>m k. rnd x = of_int m * 2 powi k \<and> \<bar>m\<bar> \<le> 2 ^ 53 \<and> - 1074 \<le> k"
proof -
  define m where "m = (if 0 \<le> x then mant x else - mant x)"
  have "rnd x = of_int m * 2 powi (expo x - 52)"
    by (cases "x = 0") (auto simp: rnd_mant m_def ulp_def sgn_if)
  moreover have "\<bar>m\<bar> \<le> 2 ^ 53" using mant_le[of x] mant_nonneg[of x] by (simp add: m_def)
  moreover have "- 1074 \<le> expo x - 52" using expo_ge[of x] by linarith
  ultimately show ?thesis by blast
qed

lemma rnd_idem [simp]: "rnd (rnd x) = rnd x"
  using rnd_shape[of x] rnd_rep_le by auto

lemma rnd_grid: "\<exists>m. rnd x = of_int m * 2 powi (- 1074)"
proof -
  from rnd_shape[of x] obtain m k where r: "rnd x = of_int m * 2 powi k" "- 1074 \<le> k" by blast
  define j where "j = k + 1074"
  have j: "0 \<le> j" using r(2) by (simp add: j_def)
  have "(2::real) powi k = 2 powi j * 2 powi (- 1074)"
    by (simp add: j_def two_powi_add[symmetric])
  then have "rnd x = of_int (m * 2 ^ nat j) * 2 powi (- 1074)"
    using r(1) two_powi_nat[OF j] by simp
  then show ?thesis by blast
qed

text \<open>Rounding is monotone.\<close>

lemma rnd_mono_pos:
  assumes "0 < x" "x \<le> y"
  shows "rnd x \<le> rnd y"
proof -
  have y: "0 < y" using assms by simp
  have e: "expo x \<le> expo y" using assms by (intro expo_mono) simp
  have rx: "rnd x = of_int (mant x) * ulp x" using assms(1) by (simp add: rnd_mant)
  have ry: "rnd y = of_int (mant y) * ulp y" using y by (simp add: rnd_mant)
  show ?thesis
  proof (cases "expo x = expo y")
    case True
    then have u: "ulp x = ulp y" by (simp add: ulp_def)
    have "\<bar>x\<bar> / ulp x \<le> \<bar>y\<bar> / ulp y" unfolding u using assms by (simp add: divide_right_mono less_imp_le)
    then have "mant x \<le> mant y" unfolding mant_def by (rule rne_mono)
    then show ?thesis unfolding rx ry u by (simp add: mult_right_mono less_imp_le)
  next
    case False
    with e have lt: "expo x < expo y" by simp
    have "rnd x \<le> 2 powi 53 * ulp x"
      unfolding rx using mant_le_real[of x] by (intro mult_right_mono) (simp_all add: less_imp_le)
    also have "\<dots> = 2 powi (expo x + 1)" by (simp add: ulp_def two_powi_add[symmetric] ac_simps)
    also have "\<dots> \<le> 2 powi expo y" using lt by simp
    also have "\<dots> = 2 powi 52 * ulp y" by (simp add: ulp_def two_powi_add[symmetric])
    also have "\<dots> \<le> rnd y"
    proof -
      have "- 1022 < expo y" using lt expo_ge[of x] by linarith
      then have "2 powi (- 1022) \<le> \<bar>y\<bar>" using expo_small[of y] by (cases "2 powi (- 1022) \<le> \<bar>y\<bar>") auto
      from mant_ge_real[OF this] show ?thesis unfolding ry by (intro mult_right_mono) (simp_all add: less_imp_le)
    qed
    finally show ?thesis .
  qed
qed

lemma rnd_mono:
  assumes "x \<le> y"
  shows "rnd x \<le> rnd y"
proof -
  consider "0 < x" | "x \<le> 0" "0 \<le> y" | "y < 0" by linarith
  then show ?thesis
  proof cases
    case 1
    then show ?thesis using assms by (rule rnd_mono_pos)
  next
    case 2
    then show ?thesis using rnd_sgn(1)[of y] rnd_sgn(2)[of x] by linarith
  next
    case 3
    then have "0 < - y" "- y \<le> - x" using assms by simp_all
    from rnd_mono_pos[OF this] show ?thesis by (simp add: rnd_minus)
  qed
qed

lemma rnd_abs: "rnd \<bar>x\<bar> = \<bar>rnd x\<bar>"
  by (cases "0 \<le> x") (use rnd_sgn[of x] in \<open>auto simp: abs_if rnd_minus\<close>)

text \<open>Halving commutes with rounding above the subnormal range.\<close>

lemma rnd_half:
  assumes "2 powi (- 1021) \<le> \<bar>x\<bar>"
  shows "rnd (x / 2) = rnd x / 2"
proof -
  have n: "2 powi (- 1022) \<le> \<bar>x\<bar>"
    using assms by (rule order_trans[rotated]) simp
  have e: "expo (x / 2) = expo x - 1"
  proof (rule expo_eq)
    show "2 powi (expo x - 1) \<le> \<bar>x / 2\<bar>"
      unfolding two_powi_half[symmetric] using expo_normal(1)[OF n] by simp
    have "(2::real) powi (expo x - 1 + 1) = 2 powi (expo x + 1) / 2" by (simp add: two_powi_half)
    then show "\<bar>x / 2\<bar> < 2 powi (expo x - 1 + 1)" using expo_normal(2)[OF n] by simp
    have "(2::real) powi (- 1021) < 2 powi (expo x + 1)" using assms expo_normal(2)[OF n] by linarith
    then show "- 1022 \<le> expo x - 1" by simp
  qed
  have u: "ulp (x / 2) = ulp x / 2" unfolding ulp_def e by (simp add: two_powi_half algebra_simps)
  have "\<bar>x / 2\<bar> / ulp (x / 2) = \<bar>x\<bar> / ulp x" unfolding u by simp
  then have "mant (x / 2) = mant x" unfolding mant_def by (simp only:)
  then show ?thesis unfolding rnd_mant u by (simp add: sgn_if)
qed

text \<open>The relative error of rounding in the normal range, and the absolute error below it.\<close>

lemma ulp_normal:
  assumes "2 powi (- 1022) \<le> \<bar>x\<bar>"
  shows "ulp x \<le> 2 powi (- 52) * \<bar>x\<bar>"
proof -
  have "ulp x = 2 powi (- 52) * 2 powi expo x"
    by (simp add: ulp_def two_powi_add[symmetric])
  also have "\<dots> \<le> 2 powi (- 52) * \<bar>x\<bar>"
    using expo_normal(1)[OF assms] by (intro mult_left_mono) simp_all
  finally show ?thesis .
qed

lemma ulp_small:
  assumes "\<bar>x\<bar> < 2 powi (- 1022)"
  shows "ulp x = 2 powi (- 1074)"
  by (simp add: ulp_def expo_small[OF assms])

lemma rnd_rel:
  assumes "2 powi (- 1022) \<le> \<bar>x\<bar>"
  shows "\<bar>rnd x - x\<bar> \<le> 2 powi (- 53) * \<bar>x\<bar>"
proof -
  have "\<bar>rnd x - x\<bar> \<le> ulp x / 2" by (rule rnd_error)
  also have "\<dots> \<le> 2 powi (- 52) * \<bar>x\<bar> / 2" using ulp_normal[OF assms] by simp
  also have "\<dots> = 2 powi (- 53) * \<bar>x\<bar>" using two_powi_half[of "- 52"] by simp
  finally show ?thesis .
qed

lemma rnd_abs_error:
  "\<bar>rnd x - x\<bar> \<le> 2 powi (- 53) * \<bar>x\<bar> + 2 powi (- 1075)"
proof (cases "2 powi (- 1022) \<le> \<bar>x\<bar>")
  case True
  from rnd_rel[OF this] show ?thesis by (simp add: add_increasing2)
next
  case False
  then have "ulp x = 2 powi (- 1074)" by (intro ulp_small) simp
  with rnd_error[of x] have "\<bar>rnd x - x\<bar> \<le> 2 powi (- 1074) / 2" by simp
  also have "\<dots> = 2 powi (- 1075)" using two_powi_half[of "- 1074"] by simp
  finally show ?thesis by (simp add: add_increasing)
qed

text \<open>Sums of rounded values: no error below the normal range.\<close>

lemma rnd_grid_small:
  assumes "\<bar>x\<bar> < 2 powi (- 1022)" "x = of_int m * 2 powi (- 1074)"
  shows "rnd x = x"
proof -
  have "\<bar>real_of_int m\<bar> * 2 powi (- 1074) < 2 powi (- 1022)"
    using assms by (simp add: abs_mult)
  also have "(2::real) powi (- 1022) = 2 powi 52 * 2 powi (- 1074)"
    by (simp add: two_powi_add[symmetric])
  finally have "\<bar>real_of_int m\<bar> < 2 powi 52" by simp
  then have "\<bar>m\<bar> < 2 ^ 52" unfolding two_powi_53 by linarith
  then have "\<bar>m\<bar> < 2 ^ 53" by simp
  from rnd_rep[OF this, of "- 1074"] assms(2) show ?thesis by simp
qed

lemma rnd_add_rel:
  assumes "rnd x = x" "rnd y = y"
  shows "\<bar>rnd (x + y) - (x + y)\<bar> \<le> 2 powi (- 53) * \<bar>x + y\<bar>"
proof (cases "2 powi (- 1022) \<le> \<bar>x + y\<bar>")
  case True
  then show ?thesis by (rule rnd_rel)
next
  case False
  from rnd_grid[of x] rnd_grid[of y] assms obtain a b where
    "x = of_int a * 2 powi (- 1074)" "y = of_int b * 2 powi (- 1074)" by auto
  then have "x + y = of_int (a + b) * 2 powi (- 1074)" by (simp add: algebra_simps)
  moreover from False have "\<bar>x + y\<bar> < 2 powi (- 1022)" by simp
  ultimately have "rnd (x + y) = x + y" by (rule rnd_grid_small[rotated])
  then show ?thesis by simp
qed

lemmas float64_ops = plus_float64_def minus_float64_def uminus_float64_def times_float64_def
  zero_float64_def

lemma round64_0 [simp]: "round64 0 = Num 0"
  by (simp add: round64_def)

lemma round64_minus: "round64 (- x) = neg64 (round64 x)"
  using rnd_sgn[of x] by (cases "x = 0") (auto simp: round64_def rnd_minus Let_def)

lemma neg64_neg64 [simp]: "neg64 (neg64 a) = a"
  by (cases a) simp_all

lemma add64_commute: "add64 a b = add64 b a"
  by (cases a; cases b) (simp_all add: add.commute)

lemma mul64_commute: "mul64 a b = mul64 b a"
  by (cases a; cases b) (simp_all add: mult.commute)

lemma neg64_add64: "neg64 (add64 a b) = add64 (neg64 a) (neg64 b)"
proof (cases a; cases b)
  fix x y assume "a = Num x" "b = Num y"
  then show ?thesis using round64_minus[of "x + y"] by simp
qed simp_all

lemma mul64_neg64: "mul64 a (neg64 b) = neg64 (mul64 a b)"
proof (cases a; cases b)
  fix x y assume "a = Num x" "b = Num y"
  then show ?thesis using round64_minus[of "x * y"] by simp
qed auto

lemma neg64_mul64: "mul64 (neg64 a) b = neg64 (mul64 a b)"
  using mul64_neg64[of b a] by (simp add: mul64_commute)

lemma half64_neg64: "half64 (neg64 a) = neg64 (half64 a)"
proof (cases a)
  case (Num x)
  then show ?thesis using round64_minus[of "x / 2"] by simp
qed simp_all

lemma ne64_neg64 [simp]: "ne64 (neg64 a) (Num 0) = ne64 a (Num 0)"
  by (cases a) simp_all

lemma is_float64_round64 [simp]: "is_float64 (round64 x)"
  by (simp add: round64_def Let_def not_le)

lemma is_float64_neg64 [simp]: "is_float64 (neg64 a) = is_float64 a"
  by (cases a) (auto simp: rnd_minus)

lemma is_float64_add64 [simp]: "is_float64 (add64 a b)"
  by (cases a; cases b) simp_all

lemma is_float64_mul64 [simp]: "is_float64 (mul64 a b)"
  by (cases a; cases b) simp_all

lemma is_float64_0 [simp]: "is_float64 (Num 0)"
  by simp

lemma round64_id: "is_float64 (Num x) \<Longrightarrow> round64 x = Num x"
  by (simp add: round64_def Let_def)

lemma add64_0 [simp]: "is_float64 a \<Longrightarrow> add64 (Num 0) a = a" "is_float64 a \<Longrightarrow> add64 a (Num 0) = a"
  by (cases a; simp add: round64_id)+

lemma top_loop_f64_0 [simp]: "top_loop_f64 z q_tot 0 q_cum = Inr q_cum"
  by simp

lemma top_loop_f64_Suc:
  "top_loop_f64 z q_tot (Suc i) q_cum =
     (if step_nonzero z i then
        (if Suc i < length q_tot then
           top_loop_f64 z q_tot i (q_cum[i := q_cum ! Suc i + trapezoid_f64 z q_tot i])
         else Inl IndexError)
      else top_loop_f64 z q_tot i q_cum)"
  by (simp add: Let_def trapezoid_f64_def step_nonzero_def)

declare top_loop_f64.simps [simp del]

lemma top_loop_f64_char:
  assumes "i < length c" "i < length q \<or> i = 0"
  shows "\<exists>r. top_loop_f64 z q i c = Inr r \<and> length r = length c \<and>
    (\<forall>j. i \<le> j \<longrightarrow> r ! j = c ! j) \<and>
    (\<forall>j<i. r ! j = (if step_nonzero z j then r ! (j + 1) + trapezoid_f64 z q j else c ! j))"
  using assms
proof (induction i arbitrary: c)
  case 0
  then show ?case by simp
next
  case (Suc i)
  from Suc.prems have i: "i < length c" "Suc i < length q" "Suc i < length c" by auto
  show ?case
  proof (cases "step_nonzero z i")
    case True
    let ?c = "c[i := c ! Suc i + trapezoid_f64 z q i]"
    from Suc.IH[of ?c] i obtain r where
      r: "top_loop_f64 z q i ?c = Inr r" "length r = length c"
         "\<forall>j. i \<le> j \<longrightarrow> r ! j = ?c ! j"
         "\<forall>j<i. r ! j = (if step_nonzero z j then r ! (j + 1) + trapezoid_f64 z q j else ?c ! j)"
      by auto
    have 1: "r ! j = c ! j" if "Suc i \<le> j" for j
      using r(3)[rule_format, of j] that by simp
    have 2: "r ! j = (if step_nonzero z j then r ! (j + 1) + trapezoid_f64 z q j else c ! j)"
      if "j < Suc i" for j
    proof (cases "j = i")
      case True
      have "r ! i = c ! Suc i + trapezoid_f64 z q i" using r(3)[rule_format, of i] i by simp
      moreover have "r ! Suc i = c ! Suc i" using 1[of "Suc i"] by simp
      ultimately show ?thesis using \<open>step_nonzero z i\<close> True by simp
    next
      case False
      with that have "j < i" by simp
      with r(4)[rule_format, of j] show ?thesis by simp
    qed
    from r(1,2) 1 2 True i show ?thesis by (simp add: top_loop_f64_Suc)
  next
    case False
    from Suc.IH[of c] i obtain r where
      r: "top_loop_f64 z q i c = Inr r" "length r = length c"
         "\<forall>j. i \<le> j \<longrightarrow> r ! j = c ! j"
         "\<forall>j<i. r ! j = (if step_nonzero z j then r ! (j + 1) + trapezoid_f64 z q j else c ! j)"
      by auto
    have 2: "r ! j = (if step_nonzero z j then r ! (j + 1) + trapezoid_f64 z q j else c ! j)"
      if "j < Suc i" for j
    proof (cases "j = i")
      case True
      then show ?thesis using r(3)[rule_format, of i] False by simp
    next
      case F: False
      with that have "j < i" by simp
      with r(4)[rule_format, of j] show ?thesis by simp
    qed
    from r(1,2,3) 2 False show ?thesis by (simp add: top_loop_f64_Suc)
  qed
qed

text \<open>The result as a recurrence from the last index.\<close>

lemma integrate_from_top_f64_char:
  assumes "length z = length q"
  shows "\<exists>r. integrate_from_top_f64 z q = Inr r \<and> length r = length z \<and>
    (z \<noteq> [] \<longrightarrow> r ! (length z - 1) = 0) \<and>
    (\<forall>j. j + 1 < length z \<longrightarrow>
       r ! j = (if step_nonzero z j then r ! (j + 1) + trapezoid_f64 z q j else 0))"
proof (cases "z = []")
  case True
  then show ?thesis by (simp add: integrate_from_top_f64_def)
next
  case False
  let ?n = "length z"
  let ?c = "replicate ?n (0::float64)"
  have "0 < ?n" using False by simp
  then have "?n - 1 < length ?c" "?n - 1 < length q \<or> ?n - 1 = 0" using assms by auto
  from top_loop_f64_char[OF this, of z] obtain r where
    r: "top_loop_f64 z q (?n - 1) ?c = Inr r" "length r = ?n"
       "\<forall>j. ?n - 1 \<le> j \<longrightarrow> r ! j = ?c ! j"
       "\<forall>j<?n - 1. r ! j = (if step_nonzero z j then r ! (j + 1) + trapezoid_f64 z q j else ?c ! j)"
    by auto
  have "r ! (?n - 1) = 0" using r(3)[rule_format, of "?n - 1"] False by simp
  moreover have "r ! j = (if step_nonzero z j then r ! (j + 1) + trapezoid_f64 z q j else 0)"
    if "j + 1 < ?n" for j
    using r(4)[rule_format, of j] that by simp
  ultimately show ?thesis using r(1,2) by (simp add: integrate_from_top_f64_def)
qed

text \<open>The forward loop as a recurrence from the first index.\<close>

lemma cumtrapz_loop_char:
  assumes "a \<le> n" "n \<le> length y" "length c = length y" "1 \<le> a"
  shows "\<exists>f. cumtrapz_loop x y [a..<n] c = Inr f \<and> length f = length c \<and>
    (\<forall>j<a. f ! j = c ! j) \<and>
    (\<forall>j. a \<le> j \<and> j < n \<longrightarrow>
       f ! j = f ! (j - 1) + Num 0.5 * (y ! j + y ! (j - 1)) * (x ! j - x ! (j - 1)))"
  using assms
proof (induction "n - a" arbitrary: a c)
  case 0
  then have "n = a" by simp
  then show ?case by auto
next
  case (Suc k)
  then have a: "a < n" "a < length y" "a < length c" by simp_all
  let ?v = "c ! (a - 1) + Num 0.5 * (y ! a + y ! (a - 1)) * (x ! a - x ! (a - 1))"
  let ?c = "c[a := ?v]"
  have "k = n - Suc a" using Suc.hyps(2) by simp
  from Suc.hyps(1)[OF this, of ?c] Suc.prems a obtain f where
    f: "cumtrapz_loop x y [Suc a..<n] ?c = Inr f" "length f = length c"
       "\<forall>j<Suc a. f ! j = ?c ! j"
       "\<forall>j. Suc a \<le> j \<and> j < n \<longrightarrow>
          f ! j = f ! (j - 1) + Num 0.5 * (y ! j + y ! (j - 1)) * (x ! j - x ! (j - 1))"
    by auto
  have 1: "f ! j = c ! j" if "j < a" for j using f(3)[rule_format, of j] that by simp
  have 2: "f ! j = f ! (j - 1) + Num 0.5 * (y ! j + y ! (j - 1)) * (x ! j - x ! (j - 1))"
    if "a \<le> j \<and> j < n" for j
  proof (cases "j = a")
    case True
    have "f ! a = ?v" using f(3)[rule_format, of a] a by simp
    moreover have "f ! (a - 1) = c ! (a - 1)" using 1[of "a - 1"] Suc.prems(4) by simp
    ultimately show ?thesis using True by simp
  next
    case False
    with that f(4) show ?thesis by simp
  qed
  have "cumtrapz_loop x y [a..<n] c = cumtrapz_loop x y [Suc a..<n] ?c"
    using a by (simp add: upt_rec[of a n] Let_def)
  with f(1) have "cumtrapz_loop x y [a..<n] c = Inr f" by simp
  with f(2) 1 2 show ?case by blast
qed

lemma manual_cumtrapz_char:
  assumes "length x = length y"
  shows "\<exists>f. manual_cumtrapz x y = Inr f \<and> length f = length x \<and>
    (x \<noteq> [] \<longrightarrow> f ! 0 = 0) \<and>
    (\<forall>j. j + 1 < length x \<longrightarrow>
       f ! (j + 1) = f ! j + Num 0.5 * (y ! (j + 1) + y ! j) * (x ! (j + 1) - x ! j))"
proof (cases "x = []")
  case True
  then show ?thesis using assms by (simp add: manual_cumtrapz_def)
next
  case False
  let ?c = "replicate (length y) (0::float64)"
  have "0 < length x" using False by simp
  then have "1 \<le> length x" "length x \<le> length y" "length ?c = length y" "(1::nat) \<le> 1"
    using assms by (simp_all add: Suc_le_eq)
  from cumtrapz_loop_char[OF this, of x] obtain f where
    f: "cumtrapz_loop x y [1..<length x] ?c = Inr f" "length f = length y"
       "\<forall>j<1. f ! j = ?c ! j"
       "\<forall>j. 1 \<le> j \<and> j < length x \<longrightarrow>
          f ! j = f ! (j - 1) + Num 0.5 * (y ! j + y ! (j - 1)) * (x ! j - x ! (j - 1))"
    by auto
  have "f ! 0 = 0" using f(3) \<open>0 < length x\<close> assms by simp
  moreover have "f ! (j + 1) = f ! j + Num 0.5 * (y ! (j + 1) + y ! j) * (x ! (j + 1) - x ! j)"
    if "j + 1 < length x" for j
    using f(4)[rule_format, of "j + 1"] that by simp
  ultimately show ?thesis using f(1,2) assms by (simp add: manual_cumtrapz_def)
qed

lemma sub64_swap: "(a::float64) - b = - (b - a)"
  by (simp add: float64_ops neg64_add64 add64_commute)

lemma uminus_zero_f64 [simp]: "- (0::float64) = 0"
  by (simp add: float64_ops)

lemma ne64_uminus: "ne64 (- a) 0 = ne64 a 0"
  by (simp add: float64_ops)

lemma step_nonzero_rev:
  assumes "j + 1 < length z"
  shows "step_nonzero (rev z) j = step_nonzero z (length z - 2 - j)"
proof -
  have "rev z ! (j + 1) = z ! (length z - 2 - j)" "rev z ! j = z ! (length z - 2 - j + 1)"
    using assms by (simp_all add: rev_nth Suc_diff_Suc)
  then have "rev z ! (j + 1) - rev z ! j = z ! (length z - 2 - j) - z ! (length z - 2 - j + 1)"
    by (simp only:)
  also have "\<dots> = - (z ! (length z - 2 - j + 1) - z ! (length z - 2 - j))"
    by (rule sub64_swap)
  finally show ?thesis unfolding step_nonzero_def by (simp only: ne64_uminus)
qed

lemma trapezoid_f64_rev:
  assumes "j + 1 < length z" "length z = length q"
  shows "trapezoid_f64 (rev z) (rev q) j =
    - (Num 0.5 * (q ! (length z - 2 - j + 1) + q ! (length z - 2 - j))
        * (z ! (length z - 2 - j + 1) - z ! (length z - 2 - j)))"
proof -
  let ?k = "length z - 2 - j"
  have z: "rev z ! (j + 1) = z ! ?k" "rev z ! j = z ! (?k + 1)"
    using assms by (simp_all add: rev_nth Suc_diff_Suc)
  have q: "rev q ! (j + 1) = q ! ?k" "rev q ! j = q ! (?k + 1)"
    using assms by (simp_all add: rev_nth Suc_diff_Suc)
  have "z ! ?k - z ! (?k + 1) = - (z ! (?k + 1) - z ! ?k)" by (rule sub64_swap)
  then show ?thesis unfolding trapezoid_f64_def z q by (simp only: float64_ops mul64_neg64)
qed

lemma integrate_from_top_f64_rev:
  assumes "length z = length q" "\<forall>j. j + 1 < length z \<longrightarrow> step_nonzero z j"
  shows "\<exists>f. manual_cumtrapz z q = Inr f \<and>
    integrate_from_top_f64 (rev z) (rev q) = Inr (rev (map uminus f))"
proof -
  let ?n = "length z"
  from manual_cumtrapz_char[OF assms(1)] obtain f where
    f: "manual_cumtrapz z q = Inr f" "length f = ?n" "z \<noteq> [] \<longrightarrow> f ! 0 = 0"
       "\<forall>j. j + 1 < ?n \<longrightarrow> f ! (j + 1) = f ! j + Num 0.5 * (q ! (j + 1) + q ! j) * (z ! (j + 1) - z ! j)"
    by blast
  have "length (rev z) = length (rev q)" using assms(1) by simp
  from integrate_from_top_f64_char[OF this] obtain r where
    r: "integrate_from_top_f64 (rev z) (rev q) = Inr r" "length r = ?n"
       "z \<noteq> [] \<longrightarrow> r ! (?n - 1) = 0"
       "\<forall>j. j + 1 < ?n \<longrightarrow>
          r ! j = (if step_nonzero (rev z) j then r ! (j + 1) + trapezoid_f64 (rev z) (rev q) j else 0)"
    by auto
  have main: "r ! (?n - 1 - m) = - (f ! m)" if "m < ?n" for m
    using that
  proof (induction m)
    case 0
    then show ?case using r(3) f(3) by auto
  next
    case (Suc m)
    let ?j = "?n - 1 - Suc m"
    have j: "?j + 1 < ?n" "?n - 2 - ?j = m" "?j + 1 = ?n - 1 - m" using Suc.prems by auto
    have nz: "step_nonzero (rev z) ?j"
      using step_nonzero_rev[OF j(1)] assms(2) Suc.prems unfolding j(2) by simp
    have "r ! ?j = r ! (?j + 1) + trapezoid_f64 (rev z) (rev q) ?j"
      using r(4)[rule_format, OF j(1)] nz by simp
    also have "r ! (?j + 1) = - (f ! m)" unfolding j(3) using Suc by simp
    also have "trapezoid_f64 (rev z) (rev q) ?j
        = - (Num 0.5 * (q ! (m + 1) + q ! m) * (z ! (m + 1) - z ! m))"
      using trapezoid_f64_rev[OF j(1) assms(1)] unfolding j(2) .
    also have "- (f ! m) + - (Num 0.5 * (q ! (m + 1) + q ! m) * (z ! (m + 1) - z ! m))
        = - (f ! m + Num 0.5 * (q ! (m + 1) + q ! m) * (z ! (m + 1) - z ! m))"
      by (simp add: float64_ops neg64_add64)
    also have "\<dots> = - (f ! Suc m)" using f(4)[rule_format, of m] Suc.prems by simp
    finally show ?case .
  qed
  have "r = rev (map uminus f)"
  proof (rule nth_equalityI)
    show "length r = length (rev (map uminus f))" using r(2) f(2) by simp
    fix i assume "i < length r"
    then have i: "i < ?n" using r(2) by simp
    then have "?n - 1 - (?n - 1 - i) = i" "?n - 1 - i < ?n" by auto
    with main[of "?n - 1 - i"] have "r ! i = - (f ! (?n - 1 - i))" by simp
    also have "\<dots> = rev (map uminus f) ! i" using i f(2) by (simp add: rev_nth Suc_diff_Suc)
    finally show "r ! i = rev (map uminus f) ! i" .
  qed
  with f(1) r(1) show ?thesis by simp
qed

lemma doubles_nth: "doubles xs \<Longrightarrow> i < length xs \<Longrightarrow> is_float64 (Num (xs ! i))"
  by (simp add: doubles_def list_all_length)

lemma rnd_min_subnormal: "rnd (2 powi (- 1074)) = 2 powi (- 1074)"
  using rnd_rep[of 1 "- 1074"] by simp

lemma rnd_nonzero:
  assumes "rnd x = x" "rnd y = y" "x \<noteq> y"
  shows "rnd (y - x) \<noteq> 0"
proof -
  from rnd_grid[of x] rnd_grid[of y] assms(1,2) obtain a b where
    ab: "x = of_int a * 2 powi (- 1074)" "y = of_int b * 2 powi (- 1074)" by auto
  with assms(3) have "a \<noteq> b" by auto
  then have "1 \<le> \<bar>b - a\<bar>" by linarith
  then have "1 \<le> \<bar>real_of_int (b - a)\<bar>" by (metis of_int_1_le_iff of_int_abs)
  then have "1 * 2 powi (- 1074) \<le> \<bar>real_of_int (b - a)\<bar> * 2 powi (- 1074)"
    by (intro mult_right_mono) simp_all
  also have "\<dots> = \<bar>y - x\<bar>"
  proof -
    have "y - x = real_of_int (b - a) * 2 powi (- 1074)" unfolding ab by (simp add: algebra_simps)
    then show ?thesis by (simp add: abs_mult)
  qed
  finally have "2 powi (- 1074) \<le> \<bar>y - x\<bar>" by simp
  from rnd_mono[OF this] have "2 powi (- 1074) \<le> \<bar>rnd (y - x)\<bar>"
    by (simp add: rnd_min_subnormal rnd_abs)
  moreover have "(0::real) < 2 powi (- 1074)" by simp
  ultimately show ?thesis by linarith
qed

lemma round64_ne_0: "rnd x \<noteq> 0 \<Longrightarrow> ne64 (round64 x) (Num 0)"
  by (simp add: round64_def Let_def)

lemma sub_doubles:
  "Num y - Num x = round64 (y - x)"
  by (simp add: float64_ops)

lemma step_nonzero_doubles:
  assumes "strictly_monotonic zs" "doubles zs" "j + 1 < length zs"
  shows "step_nonzero (map Num zs) j"
proof -
  have "is_float64 (Num (zs ! j))" "is_float64 (Num (zs ! (j + 1)))"
    using doubles_nth[OF assms(2)] assms(3) by simp_all
  moreover have "zs ! j \<noteq> zs ! (j + 1)" using strictly_monotonic_adjacent[OF assms(1), of j] assms(3) by simp
  ultimately have "rnd (zs ! (j + 1) - zs ! j) \<noteq> 0" by (intro rnd_nonzero) simp_all
  then show ?thesis using assms(3) by (simp add: step_nonzero_def sub_doubles round64_ne_0 zero_float64_def)
qed

subsection \<open>NaN and the recurrence\<close>

lemma isnan64_add [simp]: "isnan64 a \<Longrightarrow> isnan64 (a + b)" "isnan64 b \<Longrightarrow> isnan64 (a + b)"
  by (cases a; cases b; simp add: float64_ops)+

lemma isnan64_mul [simp]: "isnan64 a \<Longrightarrow> isnan64 (a * b)" "isnan64 b \<Longrightarrow> isnan64 (a * b)"
  by (cases a; cases b; simp add: float64_ops)+

lemma isnan64_trapezoid:
  "isnan64 (q ! j) \<or> isnan64 (q ! (j + 1)) \<Longrightarrow> isnan64 (trapezoid_f64 z q j)"
  unfolding trapezoid_f64_def by auto

lemma integrate_from_top_f64_nan:
  assumes "length z = length q" "\<forall>j. j + 1 < length z \<longrightarrow> step_nonzero z j"
    "k < length q" "isnan64 (q ! k)"
    "integrate_from_top_f64 z q = Inr r" "i \<le> k" "i < length z - 1"
  shows "isnan64 (r ! i)"
proof -
  from integrate_from_top_f64_char[OF assms(1)] assms(5) have
    rec: "\<forall>j. j + 1 < length z \<longrightarrow>
       r ! j = (if step_nonzero z j then r ! (j + 1) + trapezoid_f64 z q j else 0)"
    by auto
  have step: "r ! j = r ! (j + 1) + trapezoid_f64 z q j" if "j + 1 < length z" for j
    using rec that assms(2) by simp
  define m where "m = min k (length z - 2)"
  have m: "m + 1 < length z" "i \<le> m" "m = k \<or> m + 1 = k" using assms(1,3,6,7) by (auto simp: m_def)
  have "isnan64 (trapezoid_f64 z q m)" using m(3) assms(4) by (intro isnan64_trapezoid) auto
  then have top: "isnan64 (r ! m)" using step[OF m(1)] by simp
  have "isnan64 (r ! (m - d))" for d
  proof (induction d)
    case 0
    then show ?case using top by simp
  next
    case (Suc d)
    show ?case
    proof (cases "Suc d \<le> m")
      case True
      then have "m - Suc d + 1 = m - d" "m - Suc d + 1 < length z" using m(1) by auto
      with step[of "m - Suc d"] Suc show ?thesis by simp
    next
      case False
      then have "m - Suc d = m - d" by simp
      with Suc show ?thesis by simp
    qed
  qed
  from this[of "m - i"] m(2) show ?thesis by simp
qed

text \<open>The entries beyond an index depend only on the rates beyond it.\<close>

lemma integrate_from_top_f64_tail:
  assumes "length z = length q" "length z = length q'"
    "\<forall>j. k < j \<and> j < length z \<longrightarrow> q' ! j = q ! j"
    "integrate_from_top_f64 z q = Inr r" "integrate_from_top_f64 z q' = Inr r'"
    "k < i" "i < length z"
  shows "r' ! i = r ! i"
proof -
  let ?n = "length z"
  from integrate_from_top_f64_char[OF assms(1)] assms(4) have
    r: "r ! (?n - 1) = 0"
       "\<forall>j. j + 1 < ?n \<longrightarrow> r ! j = (if step_nonzero z j then r ! (j + 1) + trapezoid_f64 z q j else 0)"
    using assms(7) by auto
  from integrate_from_top_f64_char[OF assms(2)] assms(5) have
    r': "r' ! (?n - 1) = 0"
       "\<forall>j. j + 1 < ?n \<longrightarrow> r' ! j = (if step_nonzero z j then r' ! (j + 1) + trapezoid_f64 z q' j else 0)"
    using assms(7) by auto
  have t: "trapezoid_f64 z q' j = trapezoid_f64 z q j" if "k < j" "j + 1 < ?n" for j
    using that assms(3) by (simp add: trapezoid_f64_def)
  have "?n - 1 - d > k \<longrightarrow> r' ! (?n - 1 - d) = r ! (?n - 1 - d)" for d
  proof (induction d)
    case 0
    then show ?case using r(1) r'(1) by simp
  next
    case (Suc d)
    show ?case
    proof (intro impI)
      assume a: "k < ?n - 1 - Suc d"
      let ?j = "?n - 1 - Suc d"
      have j: "?j + 1 = ?n - 1 - d" "?j + 1 < ?n" "k < ?n - 1 - d" using a by auto
      from Suc j have "r' ! (?j + 1) = r ! (?j + 1)" by simp
      moreover have "trapezoid_f64 z q' ?j = trapezoid_f64 z q ?j" using t[OF a j(2)] .
      ultimately show "r' ! ?j = r ! ?j"
        using r(2)[rule_format, OF j(2)] r'(2)[rule_format, OF j(2)] by simp
    qed
  qed
  from this[of "?n - 1 - i"] assms(6,7) show ?thesis by simp
qed

subsection \<open>Values that stay finite\<close>

lemma round64_bound:
  assumes "\<bar>x\<bar> \<le> B" "rnd B = B" "B < 2 powi 1024"
  shows "\<exists>v. round64 x = Num v \<and> \<bar>v\<bar> \<le> B \<and> v = rnd x"
proof -
  have "\<bar>rnd x\<bar> = rnd \<bar>x\<bar>" by (simp add: rnd_abs)
  also have "\<dots> \<le> rnd B" using assms(1) by (rule rnd_mono)
  finally have "\<bar>rnd x\<bar> \<le> B" using assms(2) by simp
  with assms(3) show ?thesis by (simp add: round64_def Let_def)
qed

lemma rnd_two_powi: "- 1074 \<le> k \<Longrightarrow> rnd (2 powi k) = 2 powi k"
  using rnd_rep[of 1 k] by simp

lemma rnd_nat_two_powi:
  assumes "m < 2 ^ 53" "- 1074 \<le> k"
  shows "rnd (real m * 2 powi k) = real m * 2 powi k"
proof -
  have "\<bar>int m\<bar> < 2 ^ 53" using assms(1) by (simp add: of_nat_less_numeral_power_cancel_iff)
  from rnd_rep[OF this assms(2)] show ?thesis by simp
qed

text \<open>
  With rates bounded by \<open>2\<^sup>a\<close> and steps bounded by \<open>2\<^sup>b\<close>, a trapezoid is bounded by
  \<open>2\<^sup>a\<^sup>+\<^sup>b\<close>.
\<close>

lemma trapezoid_f64_bound:
  assumes "q ! j = Num x" "q ! (j + 1) = Num y" "\<bar>x\<bar> \<le> 2 powi a" "\<bar>y\<bar> \<le> 2 powi a"
    "z ! (j + 1) - z ! j = Num d" "\<bar>d\<bar> \<le> 2 powi b"
    "0 \<le> a" "0 \<le> b" "a + b < 1023"
  shows "\<exists>t. trapezoid_f64 z q j = Num t \<and> \<bar>t\<bar> \<le> 2 powi (a + b)"
proof -
  have "\<bar>x + y\<bar> \<le> 2 powi (a + 1)" using assms(3,4) by (simp add: two_powi_double[symmetric])
  moreover have "rnd (2 powi (a + 1)) = 2 powi (a + 1)" using assms(7) by (intro rnd_two_powi) simp
  moreover have "(2::real) powi (a + 1) < 2 powi 1024" using assms(8,9) by simp
  ultimately obtain s where s: "round64 (x + y) = Num s" "\<bar>s\<bar> \<le> 2 powi (a + 1)"
    using round64_bound by blast
  have "\<bar>1 / 2 * s\<bar> \<le> 2 powi a" using s(2) by (simp add: two_powi_double[symmetric])
  moreover have "rnd (2 powi a) = 2 powi a" using assms(7) by (intro rnd_two_powi) simp
  moreover have "(2::real) powi a < 2 powi 1024" using assms(8,9) by simp
  ultimately obtain h where h: "round64 (1 / 2 * s) = Num h" "\<bar>h\<bar> \<le> 2 powi a"
    using round64_bound by blast
  have "\<bar>h * d\<bar> \<le> 2 powi a * 2 powi b"
    unfolding abs_mult using h(2) assms(6) by (intro mult_mono) simp_all
  then have "\<bar>h * d\<bar> \<le> 2 powi (a + b)" by (simp add: two_powi_add)
  moreover have "rnd (2 powi (a + b)) = 2 powi (a + b)" using assms(7,8) by (intro rnd_two_powi) simp
  moreover have "(2::real) powi (a + b) < 2 powi 1024" using assms(9) by simp
  ultimately obtain t where t: "round64 (h * d) = Num t" "\<bar>t\<bar> \<le> 2 powi (a + b)"
    using round64_bound by blast
  show ?thesis unfolding trapezoid_f64_def assms(1,2,5) using s(1) h(1) t by (simp add: float64_ops)
qed

lemma integrate_from_top_f64_finite:
  assumes len: "length z = length q" and res: "integrate_from_top_f64 z q = Inr r"
    and q: "\<forall>j. k < j \<and> j < length z \<longrightarrow> (\<exists>x. q ! j = Num x \<and> \<bar>x\<bar> \<le> 2 powi a)"
    and z: "\<forall>j. k < j \<and> j + 1 < length z \<longrightarrow> (\<exists>d. z ! (j + 1) - z ! j = Num d \<and> \<bar>d\<bar> \<le> 2 powi b)"
    and ab: "0 \<le> a" "0 \<le> b"
    and n: "length z \<le> 2 ^ 53" "real (length z) * 2 powi (a + b) < 2 powi 1024"
    and i: "k < i" "i < length z"
  shows "\<exists>v. r ! i = Num v \<and> \<bar>v\<bar> \<le> real (length z - 1 - i) * 2 powi (a + b)"
proof -
  let ?n = "length z"
  let ?P = "(2::real) powi (a + b)"
  from integrate_from_top_f64_char[OF len] res have
    r: "r ! (?n - 1) = 0"
       "\<forall>j. j + 1 < ?n \<longrightarrow> r ! j = (if step_nonzero z j then r ! (j + 1) + trapezoid_f64 z q j else 0)"
    using i(2) by auto
  have "k < ?n - 1 - m \<longrightarrow> (\<exists>v. r ! (?n - 1 - m) = Num v \<and> \<bar>v\<bar> \<le> real m * ?P)" for m
  proof (induction m)
    case 0
    then show ?case using r(1) by (simp add: zero_float64_def)
  next
    case (Suc m)
    show ?case
    proof (intro impI)
      assume a: "k < ?n - 1 - Suc m"
      let ?j = "?n - 1 - Suc m"
      have j: "?j + 1 = ?n - 1 - m" "?j + 1 < ?n" "k < ?n - 1 - m" "k < ?j + 1" "Suc m < ?n"
        using a by auto
      from Suc j obtain v where v: "r ! (?j + 1) = Num v" "\<bar>v\<bar> \<le> real m * ?P" by auto
      show "\<exists>v. r ! ?j = Num v \<and> \<bar>v\<bar> \<le> real (Suc m) * ?P"
      proof (cases "step_nonzero z ?j")
        case False
        then have "r ! ?j = 0" using r(2)[rule_format, OF j(2)] by simp
        then show ?thesis by (simp add: zero_float64_def)
      next
        case True
        have two: "2 * ?P \<le> real ?n * ?P" using j(5) by (intro mult_right_mono) simp_all
        with n(2) have "2 * ?P < 2 powi 1024" by linarith
        then have "2 powi (a + b + 1) < (2::real) powi 1024"
          by (simp only: two_powi_double)
        then have ab': "a + b < 1023" by simp
        from q a j(2) obtain x y where xy: "q ! ?j = Num x" "\<bar>x\<bar> \<le> 2 powi a"
          "q ! (?j + 1) = Num y" "\<bar>y\<bar> \<le> 2 powi a"
          by (metis Suc_eq_plus1 Suc_lessD j(4))
        from z a j(2) obtain d where d: "z ! (?j + 1) - z ! ?j = Num d" "\<bar>d\<bar> \<le> 2 powi b" by blast
        from trapezoid_f64_bound[OF xy(1,3,2,4) d ab ab'] obtain t where
          t: "trapezoid_f64 z q ?j = Num t" "\<bar>t\<bar> \<le> ?P" by blast
        have "\<bar>v + t\<bar> \<le> real (Suc m) * ?P" using v(2) t(2) by (simp add: algebra_simps)
        moreover have "rnd (real (Suc m) * ?P) = real (Suc m) * ?P"
        proof (rule rnd_nat_two_powi)
          show "Suc m < 2 ^ 53" using j(5) n(1) by simp
          show "- 1074 \<le> a + b" using ab by simp
        qed
        moreover have "real (Suc m) * ?P < 2 powi 1024"
        proof -
          have "real (Suc m) * ?P \<le> real ?n * ?P" using j(5) by (intro mult_right_mono) simp_all
          with n(2) show ?thesis by linarith
        qed
        ultimately obtain w where "round64 (v + t) = Num w" "\<bar>w\<bar> \<le> real (Suc m) * ?P"
          using round64_bound by blast
        moreover have "r ! ?j = round64 (v + t)"
          using r(2)[rule_format, OF j(2)] True v(1) t(1) by (simp add: float64_ops)
        ultimately show ?thesis by simp
      qed
    qed
  qed
  from this[of "?n - 1 - i"] i show ?thesis by simp
qed

subsection \<open>Monotone accumulation\<close>

lemma nonneg64_round64: "0 \<le> x \<Longrightarrow> nonneg64 (round64 x)"
  using rnd_sgn(1)[of x] by (auto simp: round64_def Let_def)

lemma nonneg64_add: "nonneg64 a \<Longrightarrow> nonneg64 b \<Longrightarrow> nonneg64 (a + b)"
  by (cases a; cases b) (simp_all add: float64_ops nonneg64_round64)

lemma nonneg64_mul_pos: "nonneg64 a \<Longrightarrow> 0 < d \<Longrightarrow> nonneg64 (a * Num d)"
  by (cases a) (simp_all add: float64_ops nonneg64_round64)

lemma nonneg64_half: "nonneg64 a \<Longrightarrow> nonneg64 (Num 0.5 * a)"
  by (cases a) (simp_all add: float64_ops nonneg64_round64)

lemma le64_add:
  assumes "is_float64 a" "nonneg64 a" "nonneg64 t"
  shows "le64 a (a + t)"
proof (cases a)
  case (Num v)
  show ?thesis
  proof (cases t)
    case t: (Num w)
    with assms(3) have "v \<le> v + w" by simp
    from rnd_mono[OF this] assms(1) Num have le: "v \<le> rnd (v + w)" by simp
    have v: "0 \<le> v" using assms(2) Num by simp
    show ?thesis
    proof (cases "2 powi 1024 \<le> \<bar>rnd (v + w)\<bar>")
      case True
      with le v two_powi_pos(1)[of 1024] have "0 < rnd (v + w)" by linarith
      with True show ?thesis using Num t by (simp add: float64_ops round64_def Let_def)
    next
      case False
      with le show ?thesis using Num t by (simp add: float64_ops round64_def Let_def)
    qed
  qed (use assms Num in \<open>simp_all add: float64_ops\<close>)
qed (use assms in \<open>cases t; simp_all add: float64_ops\<close>)+

lemma le64_trans: "le64 a b \<Longrightarrow> le64 b c \<Longrightarrow> le64 a c"
  by (cases a; cases b; cases c) simp_all

lemma le64_refl: "\<not> isnan64 a \<Longrightarrow> le64 a a"
  by (cases a) simp_all

lemma abs64_nonneg: "nonneg64 a \<Longrightarrow> abs64 a = a"
  by (cases a) simp_all

lemma nonneg64_not_nan: "nonneg64 a \<Longrightarrow> \<not> isnan64 a"
  by (cases a) simp_all

text \<open>
  On non-negative rates and finite positive steps the entries are non-negative (possibly
  \<open>+inf\<close>) and grow toward index 0.
\<close>

lemma integrate_from_top_f64_increasing:
  assumes len: "length z = length q" and res: "integrate_from_top_f64 z q = Inr r"
    and q: "\<forall>j<length z. nonneg64 (q ! j)"
    and z: "\<forall>j. j + 1 < length z \<longrightarrow> (\<exists>d. z ! (j + 1) - z ! j = Num d \<and> 0 < d)"
  shows "\<forall>i<length z. is_float64 (r ! i) \<and> nonneg64 (r ! i)"
    and "\<forall>i j. i \<le> j \<and> j < length z \<longrightarrow> le64 (r ! j) (r ! i)"
proof -
  let ?n = "length z"
  from integrate_from_top_f64_char[OF len] res have
    r: "z \<noteq> [] \<longrightarrow> r ! (?n - 1) = 0"
       "\<forall>j. j + 1 < ?n \<longrightarrow> r ! j = (if step_nonzero z j then r ! (j + 1) + trapezoid_f64 z q j else 0)"
    by auto
  have nz: "step_nonzero z j" if "j + 1 < ?n" for j
    using z that by (auto simp: step_nonzero_def zero_float64_def)
  have t: "nonneg64 (trapezoid_f64 z q j)" if "j + 1 < ?n" for j
  proof -
    from z that obtain d where d: "z ! (j + 1) - z ! j = Num d" "0 < d" by blast
    have "nonneg64 (q ! j + q ! (j + 1))" using q that by (intro nonneg64_add) simp_all
    then show ?thesis unfolding trapezoid_f64_def d(1) using d(2)
      by (intro nonneg64_mul_pos nonneg64_half)
  qed
  have step: "r ! j = r ! (j + 1) + trapezoid_f64 z q j" if "j + 1 < ?n" for j
    using r(2) nz that by simp
  have inv: "m < ?n \<longrightarrow> is_float64 (r ! (?n - 1 - m)) \<and> nonneg64 (r ! (?n - 1 - m))" for m
  proof (induction m)
    case 0
    then show ?case using r(1) by (auto simp: zero_float64_def)
  next
    case (Suc m)
    show ?case
    proof (intro impI)
      assume a: "Suc m < ?n"
      let ?j = "?n - 1 - Suc m"
      have j: "?j + 1 = ?n - 1 - m" "?j + 1 < ?n" "m < ?n" using a by auto
      from Suc j have "nonneg64 (r ! (?j + 1))" by simp
      then show "is_float64 (r ! ?j) \<and> nonneg64 (r ! ?j)"
        unfolding step[OF j(2)] using t[OF j(2)] is_float64_add64 by (simp add: nonneg64_add plus_float64_def[symmetric])
    qed
  qed
  show A: "\<forall>i<?n. is_float64 (r ! i) \<and> nonneg64 (r ! i)"
  proof (intro allI impI)
    fix i assume "i < ?n"
    with inv[of "?n - 1 - i"] show "is_float64 (r ! i) \<and> nonneg64 (r ! i)" by simp
  qed
  have one: "le64 (r ! (j + 1)) (r ! j)" if "j + 1 < ?n" for j
    unfolding step[OF that] using A that t[OF that] by (intro le64_add) simp_all
  have "i + d < ?n \<longrightarrow> le64 (r ! (i + d)) (r ! i)" for i d
  proof (induction d)
    case 0
    show ?case
    proof (intro impI)
      assume "i + 0 < ?n"
      with A have "nonneg64 (r ! i)" by simp
      then show "le64 (r ! (i + 0)) (r ! i)" by (simp add: le64_refl nonneg64_not_nan)
    qed
  next
    case (Suc d)
    show ?case
    proof (intro impI)
      assume a: "i + Suc d < ?n"
      then have "le64 (r ! (i + d + 1)) (r ! (i + d))" by (intro one) simp
      moreover have "le64 (r ! (i + d)) (r ! i)" using Suc a by simp
      ultimately show "le64 (r ! (i + Suc d)) (r ! i)" using le64_trans by simp
    qed
  qed
  then show "\<forall>i j. i \<le> j \<and> j < ?n \<longrightarrow> le64 (r ! j) (r ! i)"
    by (metis le_Suc_ex)
qed

subsection \<open>Steps of a grid of doubles\<close>

lemma max_float_rep: "rnd max_float = max_float" "max_float < 2 powi 1024" "0 < max_float"
proof -
  have e: "max_float = of_int (2 ^ 53 - 1) * 2 powi 971"
    by (simp add: max_float_def two_powi_53)
  show "rnd max_float = max_float" unfolding e by (rule rnd_rep) simp_all
  have "(2 powi 53 - 1) * 2 powi 971 < 2 powi 53 * (2::real) powi 971"
    by (intro mult_strict_right_mono) simp_all
  also have "\<dots> = 2 powi 1024" by (simp add: two_powi_add[symmetric])
  finally show "max_float < 2 powi 1024" unfolding max_float_def .
  have "(1::real) < 2 powi 53" using two_powi_less_iff[of 0 53] by simp
  then show "0 < max_float" by (simp add: max_float_def)
qed

lemma round64_finite:
  assumes "\<bar>x\<bar> \<le> max_float"
  shows "round64 x = Num (rnd x)" "\<bar>rnd x\<bar> \<le> max_float"
  using round64_bound[OF assms max_float_rep(1,2)] by auto

lemma sorted_nth_bounds:
  fixes zs :: "real list"
  assumes "sorted_wrt (<) zs" "j < length zs"
  shows "hd zs \<le> zs ! j" "zs ! j \<le> last zs"
proof -
  have ne: "zs \<noteq> []" using assms(2) by auto
  show "hd zs \<le> zs ! j"
  proof (cases "j = 0")
    case True
    then show ?thesis using ne by (simp add: hd_conv_nth)
  next
    case False
    with sorted_wrt_nth_less[OF assms(1), of 0 j] assms(2) show ?thesis
      using ne by (simp add: hd_conv_nth)
  qed
  show "zs ! j \<le> last zs"
  proof (cases "j = length zs - 1")
    case True
    then show ?thesis using ne by (simp add: last_conv_nth)
  next
    case False
    with assms(2) have "j < length zs - 1" "length zs - 1 < length zs" by auto
    from sorted_wrt_nth_less[OF assms(1) this] show ?thesis
      using ne by (simp add: last_conv_nth)
  qed
qed

lemma step_increasing_doubles:
  assumes "sorted_wrt (<) zs" "doubles zs" "last zs - hd zs \<le> max_float" "j + 1 < length zs"
  shows "\<exists>d. map Num zs ! (j + 1) - map Num zs ! j = Num d \<and> 0 < d \<and> d = rnd (zs ! (j + 1) - zs ! j)"
proof -
  let ?D = "zs ! (j + 1) - zs ! j"
  have lt: "zs ! j < zs ! (j + 1)" using sorted_wrt_nth_less[OF assms(1), of j "j + 1"] assms(4) by simp
  have "hd zs \<le> zs ! j" "zs ! (j + 1) \<le> last zs" using sorted_nth_bounds[OF assms(1)] assms(4) by simp_all
  with lt assms(3) have "\<bar>?D\<bar> \<le> max_float" by simp
  from round64_finite[OF this] have r: "round64 ?D = Num (rnd ?D)" by simp
  have "is_float64 (Num (zs ! j))" "is_float64 (Num (zs ! (j + 1)))"
    using doubles_nth[OF assms(2)] assms(4) by simp_all
  then have "rnd ?D \<noteq> 0" using lt by (intro rnd_nonzero) simp_all
  moreover have "0 \<le> rnd ?D" using lt by (intro rnd_sgn) simp
  ultimately have "0 < rnd ?D" by simp
  with r show ?thesis using assms(4) by (simp add: sub_doubles)
qed

subsection \<open>Negating the grid\<close>

lemma neg_sub64: "(- a) - (- b) = - ((a::float64) - b)"
  by (simp add: float64_ops neg64_add64)

lemma step_nonzero_uminus:
  "j + 1 < length z \<Longrightarrow> step_nonzero (map uminus z) j = step_nonzero z j"
  unfolding step_nonzero_def by (simp add: neg_sub64 ne64_uminus)

lemma trapezoid_f64_uminus:
  "j + 1 < length z \<Longrightarrow> trapezoid_f64 (map uminus z) q j = - trapezoid_f64 z q j"
  unfolding trapezoid_f64_def by (simp add: neg_sub64) (simp add: float64_ops mul64_neg64)

lemma integrate_from_top_f64_uminus:
  assumes "length z = length q" "integrate_from_top_f64 z q = Inr r"
  shows "integrate_from_top_f64 (map uminus z) q = Inr (map uminus r)"
proof -
  let ?n = "length z"
  from integrate_from_top_f64_char[OF assms(1)] assms(2) have
    r: "length r = ?n" "z \<noteq> [] \<longrightarrow> r ! (?n - 1) = 0"
       "\<forall>j. j + 1 < ?n \<longrightarrow> r ! j = (if step_nonzero z j then r ! (j + 1) + trapezoid_f64 z q j else 0)"
    by auto
  have "length (map uminus z) = length q" using assms(1) by simp
  from integrate_from_top_f64_char[OF this] obtain r' where
    r': "integrate_from_top_f64 (map uminus z) q = Inr r'" "length r' = ?n"
        "z \<noteq> [] \<longrightarrow> r' ! (?n - 1) = 0"
        "\<forall>j. j + 1 < ?n \<longrightarrow> r' ! j =
           (if step_nonzero (map uminus z) j then r' ! (j + 1) + trapezoid_f64 (map uminus z) q j else 0)"
    by auto
  have main: "m < ?n \<longrightarrow> r' ! (?n - 1 - m) = - (r ! (?n - 1 - m))" for m
  proof (induction m)
    case 0
    then show ?case using r(2) r'(3) by auto
  next
    case (Suc m)
    show ?case
    proof (intro impI)
      assume a: "Suc m < ?n"
      let ?j = "?n - 1 - Suc m"
      have j: "?j + 1 = ?n - 1 - m" "?j + 1 < ?n" "m < ?n" using a by auto
      from Suc j have ih: "r' ! (?j + 1) = - (r ! (?j + 1))" by simp
      show "r' ! ?j = - (r ! ?j)"
      proof (cases "step_nonzero z ?j")
        case True
        then have "r' ! ?j = - (r ! (?j + 1)) + - trapezoid_f64 z q ?j"
          using r'(4)[rule_format, OF j(2)] step_nonzero_uminus[OF j(2)] trapezoid_f64_uminus[OF j(2)] ih
          by simp
        also have "\<dots> = - (r ! (?j + 1) + trapezoid_f64 z q ?j)"
          by (simp add: float64_ops neg64_add64)
        finally show ?thesis using r(3)[rule_format, OF j(2)] True by simp
      next
        case False
        then show ?thesis
          using r'(4)[rule_format, OF j(2)] r(3)[rule_format, OF j(2)] step_nonzero_uminus[OF j(2)]
          by simp
      qed
    qed
  qed
  have "r' = map uminus r"
  proof (rule nth_equalityI)
    show "length r' = length (map uminus r)" using r(1) r'(2) by simp
    fix i assume "i < length r'"
    then have i: "i < ?n" using r'(2) by simp
    with main[of "?n - 1 - i"] show "r' ! i = map uminus r ! i" using r(1) by simp
  qed
  with r'(1) show ?thesis by simp
qed

lemma abs64_uminus [simp]: "abs64 (- a) = abs64 a"
  by (cases a) (simp_all add: float64_ops)

lemma isnan64_uminus [simp]: "isnan64 (- a) = isnan64 a"
  by (cases a) (simp_all add: float64_ops)

lemma nonneg64_le64: "nonneg64 a = le64 0 a"
  by (cases a) (simp_all add: zero_float64_def)

subsection \<open>Magnitudes on an increasing grid\<close>

lemma magnitude_on_increasing_grid:
  assumes "length zs = length q" "sorted_wrt (<) zs" "doubles zs" "last zs - hd zs \<le> max_float"
    "\<forall>j<length q. le64 0 (q ! j)"
  shows "\<exists>r. integrate_from_top_f64 (map Num zs) q = Inr r \<and> length r = length zs \<and>
    (\<forall>i<length zs. \<not> isnan64 (r ! i)) \<and>
    (\<forall>i j. i \<le> j \<and> j < length zs \<longrightarrow> le64 (abs64 (r ! j)) (abs64 (r ! i)))"
proof -
  let ?z = "map Num zs"
  have len: "length ?z = length q" using assms(1) by simp
  from integrate_from_top_f64_char[OF len] obtain r where
    r: "integrate_from_top_f64 ?z q = Inr r" "length r = length zs" by auto
  have q: "\<forall>j<length ?z. nonneg64 (q ! j)" using assms(1,5) by (simp add: nonneg64_le64)
  have z: "\<forall>j. j + 1 < length ?z \<longrightarrow> (\<exists>d. ?z ! (j + 1) - ?z ! j = Num d \<and> 0 < d)"
    using step_increasing_doubles[OF assms(2,3,4)] by auto
  note inc = integrate_from_top_f64_increasing[OF len r(1) q z]
  have "\<not> isnan64 (r ! i)" if "i < length zs" for i
    using inc(1) that by (simp add: nonneg64_not_nan)
  moreover have "le64 (abs64 (r ! j)) (abs64 (r ! i))" if "i \<le> j \<and> j < length zs" for i j
  proof -
    have "nonneg64 (r ! i)" "nonneg64 (r ! j)" using inc(1) that by simp_all
    moreover have "le64 (r ! j) (r ! i)" using inc(2) that by simp
    ultimately show ?thesis by (simp add: abs64_nonneg)
  qed
  ultimately show ?thesis using r by blast
qed

lemma doubles_uminus: "doubles (map uminus zs) = doubles zs"
  by (simp add: doubles_def list_all_length rnd_minus)

lemma map_Num_uminus: "map uminus (map Num (map uminus zs)) = map Num zs"
  by (simp add: uminus_float64_def)

lemma sorted_wrt_uminus:
  fixes zs :: "real list"
  shows "sorted_wrt (<) (map uminus zs) = sorted_wrt (>) zs"
  by (simp add: sorted_wrt_map)

lemma steps_nonzero_doubles:
  assumes "strictly_monotonic zs" "doubles zs"
  shows "\<forall>j. j + 1 < length (map Num zs) \<longrightarrow> step_nonzero (map Num zs) j"
  using step_nonzero_doubles[OF assms] by simp

lemma manual_loop_f64_eq: "manual_loop_f64 z q i c = top_loop_f64 z q i c"
  by (induction i arbitrary: c)
    (simp_all add: top_loop_f64_Suc Let_def step_nonzero_def trapezoid_f64_def)

lemma analytical_cumulative_manual_f64_eq:
  "analytical_cumulative_manual_f64 z q = integrate_from_top_f64 z q"
  by (simp add: analytical_cumulative_manual_f64_def integrate_from_top_f64_def manual_loop_f64_eq)

lemma length_diff_f64 [simp]: "length (diff_f64 x) = length x - 1"
  by (induction x rule: diff_f64.induct) simp_all

lemma diff_f64_nth: "Suc j < length x \<Longrightarrow> diff_f64 x ! j = x ! Suc j - x ! j"
proof (induction x arbitrary: j rule: diff_f64.induct)
  case (1 a b xs)
  then show ?case by (cases j) simp_all
qed simp_all

lemma length_cumsum_from_f64 [simp]: "length (cumsum_from_f64 s xs) = length xs"
  by (induction xs arbitrary: s) simp_all

lemma length_cumsum_f64 [simp]: "length (cumsum_f64 xs) = length xs"
  by (cases xs) simp_all

lemma cumsum_from_f64_nth:
  "j < length xs \<Longrightarrow>
   cumsum_from_f64 s xs ! j = (if j = 0 then s else cumsum_from_f64 s xs ! (j - 1)) + xs ! j"
proof (induction xs arbitrary: s j)
  case Nil
  then show ?case by simp
next
  case (Cons x xs)
  show ?case
  proof (cases j)
    case 0
    then show ?thesis by simp
  next
    case (Suc i)
    with Cons.prems have "i < length xs" by simp
    from Cons.IH[OF this, of "s + x"] Suc show ?thesis by (cases i) simp_all
  qed
qed

lemma cumsum_f64_nth:
  "j < length xs \<Longrightarrow>
   cumsum_f64 xs ! j = (if j = 0 then xs ! 0 else cumsum_f64 xs ! (j - 1) + xs ! j)"
proof (cases xs)
  case Nil
  then show "j < length xs \<Longrightarrow> ?thesis" by simp
next
  case (Cons x ys)
  assume "j < length xs"
  show ?thesis
  proof (cases j)
    case 0
    then show ?thesis using Cons by simp
  next
    case (Suc i)
    with \<open>j < length xs\<close> Cons have "i < length ys" by simp
    from cumsum_from_f64_nth[OF this, of x] Suc Cons show ?thesis by (cases i) simp_all
  qed
qed

lemma is_float64_half64 [simp]: "is_float64 (half64 a)"
  by (cases a) simp_all

text \<open>The two ways of computing a trapezoid agree when it is in range.\<close>

lemma half_product:
  assumes "in_range s d" "is_float64 s"
  shows "half64 (d * s) = Num 0.5 * s * d"
proof -
  from assms(1) obtain sv dv where sd: "s = Num sv" "d = Num dv"
    by (cases s; cases d) simp_all
  show ?thesis
  proof (cases "sv = 0")
    case True
    then show ?thesis by (simp add: sd float64_ops)
  next
    case False
    with assms(1) sd have r: "2 powi (- 1021) \<le> \<bar>sv\<bar>" "2 powi (- 1021) \<le> \<bar>sv * dv\<bar>"
      "\<bar>sv * dv\<bar> \<le> max_float" by simp_all
    have sv: "rnd sv = sv" "\<bar>sv\<bar> < 2 powi 1024" using assms(2) sd by simp_all
    let ?P = "dv * sv"
    have P: "2 powi (- 1021) \<le> \<bar>?P\<bar>" "\<bar>?P\<bar> \<le> max_float" using r by (simp_all add: mult.commute)
    have half: "\<bar>?P / 2\<bar> \<le> max_float" using P(2) by simp
    have 1: "round64 ?P = Num (rnd ?P)" using round64_finite[OF P(2)] by simp
    have h: "rnd ?P / 2 = rnd (?P / 2)" using rnd_half[OF P(1)] by simp
    have "\<bar>rnd (?P / 2)\<bar> < 2 powi 1024"
      using round64_finite(2)[OF half] max_float_rep(2) by linarith
    then have 2: "round64 (rnd ?P / 2) = Num (rnd (?P / 2))"
      unfolding h by (simp add: round64_def Let_def)
    have lhs: "half64 (d * s) = Num (rnd (?P / 2))" by (simp add: sd float64_ops 1 2)
    have "\<bar>sv / 2\<bar> < 2 powi 1024" using sv(2) by simp
    moreover have "rnd (sv / 2) = sv / 2" using rnd_half[OF r(1)] sv(1) by simp
    ultimately have "is_float64 (Num (sv / 2))" by (simp only: is_float64.simps simp_thms)
    then have 3: "round64 (sv / 2) = Num (sv / 2)" by (rule round64_id)
    have "sv / 2 * dv = ?P / 2" by simp
    then have 4: "round64 (sv / 2 * dv) = Num (rnd (?P / 2))"
      using round64_finite(1)[OF half] by (simp only:)
    have "Num 0.5 * s = Num (sv / 2)" by (simp add: sd float64_ops 3)
    then have "Num 0.5 * s * d = mul64 (Num (sv / 2)) (Num dv)" by (simp only: sd times_float64_def)
    also have "\<dots> = round64 (sv / 2 * dv)" by (simp only: mul64.simps)
    finally have rhs: "Num 0.5 * s * d = Num (rnd (?P / 2))" by (simp only: 4)
    from lhs rhs show ?thesis by simp
  qed
qed

lemma cumulative_trapezoid_f64_char:
  assumes "length x = length y" "y \<noteq> []"
  shows "\<exists>res. cumulative_trapezoid_f64 y x = Inr res \<and> length res = length y \<and> res ! 0 = 0 \<and>
    (\<forall>j. j + 1 < length y \<longrightarrow>
       res ! (j + 1) = res ! j + half64 ((x ! (j + 1) - x ! j) * (y ! (j + 1) + y ! j)))"
proof -
  let ?n = "length y"
  let ?d = "diff_f64 x"
  let ?ts = "map (\<lambda>(dk, y1, y0). half64 (dk * (y1 + y0))) (zip ?d (zip (tl y) (butlast y)))"
  let ?res = "0 # cumsum_f64 ?ts"
  have n: "0 < ?n" using assms(2) by simp
  have lt: "length ?ts = ?n - 1" using assms(1) by simp
  have ts: "?ts ! j = half64 ((x ! (j + 1) - x ! j) * (y ! (j + 1) + y ! j))" if "j + 1 < ?n" for j
  proof -
    have "j < length (zip ?d (zip (tl y) (butlast y)))" using that assms(1) by simp
    moreover have "?d ! j = x ! (j + 1) - x ! j" using that assms(1) by (simp add: diff_f64_nth)
    moreover have "tl y ! j = y ! (j + 1)" using that by (simp add: nth_tl)
    moreover have "butlast y ! j = y ! j" using that by (simp add: nth_butlast)
    ultimately show ?thesis by simp
  qed
  have e: "cumulative_trapezoid_f64 y x = Inr ?res"
    using assms by (simp add: cumulative_trapezoid_f64_def Let_def)
  have "?res ! (j + 1) = ?res ! j + half64 ((x ! (j + 1) - x ! j) * (y ! (j + 1) + y ! j))"
    if j: "j + 1 < ?n" for j
  proof (cases j)
    case 0
    have "?res ! 1 = ?ts ! 0" using j lt 0 cumsum_f64_nth[of 0 ?ts] by simp
    moreover have "is_float64 (?ts ! 0)" using ts[of 0] j 0 by simp
    ultimately have "?res ! 1 = 0 + ?ts ! 0" by (simp add: float64_ops)
    then show ?thesis using ts[of 0] j 0 by simp
  next
    case (Suc i)
    have "j < length ?ts" using j lt by simp
    from cumsum_f64_nth[OF this] Suc have "cumsum_f64 ?ts ! j = cumsum_f64 ?ts ! i + ?ts ! j"
      by simp
    then show ?thesis using ts[OF j] Suc by simp
  qed
  moreover have "length ?res = ?n" using lt n by simp
  ultimately show ?thesis using e by (intro exI[of _ ?res]) simp
qed

lemma half64_uminus: "half64 (- a) = - half64 a"
  by (simp add: float64_ops half64_neg64)

lemma uminus_mul_f64: "(- a) * b = - ((a::float64) * b)"
  by (simp add: float64_ops neg64_mul64)

lemma uminus_add_f64: "- ((a::float64) + b) = - a + - b"
  by (simp add: float64_ops neg64_add64)

lemma uminus_uminus_f64 [simp]: "- (- (a::float64)) = a"
  by (simp add: float64_ops)

lemma integrate_from_top_v1_f64_eq:
  assumes "length z = length q" "z \<noteq> []"
    "\<forall>j. j + 1 < length z \<longrightarrow>
       step_nonzero z j \<and> in_range (q ! j + q ! (j + 1)) (z ! (j + 1) - z ! j)"
  shows "integrate_from_top_v1_f64 z q = integrate_from_top_f64 z q"
proof -
  let ?n = "length z"
  have n: "0 < ?n" using assms(2) by simp
  have "length (rev z) = length (rev q)" "rev q \<noteq> []" using assms(1,2) by auto
  from cumulative_trapezoid_f64_char[OF this] obtain res where
    res: "cumulative_trapezoid_f64 (rev q) (rev z) = Inr res" "length res = ?n" "res ! 0 = 0"
         "\<forall>j. j + 1 < ?n \<longrightarrow> res ! (j + 1) = res ! j
            + half64 ((rev z ! (j + 1) - rev z ! j) * (rev q ! (j + 1) + rev q ! j))"
    using assms(1) by auto
  from integrate_from_top_f64_char[OF assms(1)] assms(2) obtain r where
    r: "integrate_from_top_f64 z q = Inr r" "length r = ?n" "r ! (?n - 1) = 0"
       "\<forall>j. j + 1 < ?n \<longrightarrow> r ! j = (if step_nonzero z j then r ! (j + 1) + trapezoid_f64 z q j else 0)"
    by auto
  have tm: "half64 ((rev z ! (m + 1) - rev z ! m) * (rev q ! (m + 1) + rev q ! m))
      = - trapezoid_f64 z q (?n - 2 - m)" if m: "m + 1 < ?n" for m
  proof -
    let ?i = "?n - 2 - m"
    have i: "?i + 1 < ?n" using m by simp
    have z: "rev z ! (m + 1) = z ! ?i" "rev z ! m = z ! (?i + 1)"
      using m by (simp_all add: rev_nth Suc_diff_Suc)
    have q: "rev q ! (m + 1) = q ! ?i" "rev q ! m = q ! (?i + 1)"
      using m assms(1) by (simp_all add: rev_nth Suc_diff_Suc)
    let ?s = "q ! ?i + q ! (?i + 1)" and ?d = "z ! (?i + 1) - z ! ?i"
    have "in_range ?s ?d" using assms(3) i by simp
    moreover have "is_float64 ?s" by (simp add: plus_float64_def)
    ultimately have hp: "half64 (?d * ?s) = Num 0.5 * ?s * ?d" by (rule half_product)
    have "z ! ?i - z ! (?i + 1) = - ?d" by (rule sub64_swap)
    then have "half64 ((z ! ?i - z ! (?i + 1)) * ?s) = - half64 (?d * ?s)"
      by (simp only: uminus_mul_f64 half64_uminus)
    then show ?thesis unfolding z q hp trapezoid_f64_def .
  qed
  have main: "m < ?n \<longrightarrow> - (res ! m) = r ! (?n - 1 - m)" for m
  proof (induction m)
    case 0
    then show ?case using res(3) r(3) by simp
  next
    case (Suc m)
    show ?case
    proof (intro impI)
      assume a: "Suc m < ?n"
      let ?i = "?n - 1 - Suc m"
      have i: "?i + 1 < ?n" "?i + 1 = ?n - 1 - m" "?n - 2 - m = ?i" "m + 1 < ?n" "m < ?n"
        using a by auto
      have "res ! Suc m = res ! m + - trapezoid_f64 z q ?i"
        using res(4)[rule_format, OF i(4)] tm[OF i(4)] i(3) by simp
      then have "- (res ! Suc m) = - (res ! m) + trapezoid_f64 z q ?i"
        by (simp add: uminus_add_f64)
      also have "- (res ! m) = r ! (?i + 1)" using Suc i by simp
      also have "r ! (?i + 1) + trapezoid_f64 z q ?i = r ! ?i"
        using r(4)[rule_format, OF i(1)] assms(3) i(1) by simp
      finally show "- (res ! Suc m) = r ! ?i" .
    qed
  qed
  have "map uminus (rev res) = r"
  proof (rule nth_equalityI)
    show "length (map uminus (rev res)) = length r" using res(2) r(2) by simp
    fix i assume "i < length (map uminus (rev res))"
    then have i: "i < ?n" using res(2) by simp
    then have "map uminus (rev res) ! i = - (res ! (?n - 1 - i))"
      using res(2) by (simp add: rev_nth Suc_diff_Suc)
    also have "\<dots> = r ! i" using main[of "?n - 1 - i"] i by simp
    finally show "map uminus (rev res) ! i = r ! i" .
  qed
  then show ?thesis using res(1) r(1) by (simp add: integrate_from_top_v1_f64_def)
qed

lemma round64_Num: "round64 x = Num v \<Longrightarrow> v = rnd x"
  by (simp add: round64_def Let_def split: if_splits)

lemma add64_Num:
  assumes "(a::float64) + b = Num v"
  shows "\<exists>x y. a = Num x \<and> b = Num y \<and> v = rnd (x + y)"
  using assms by (cases a; cases b) (auto simp: float64_ops dest: round64_Num)

lemma mul64_Num:
  assumes "(a::float64) * b = Num v"
  shows "\<exists>x y. a = Num x \<and> b = Num y \<and> v = rnd (x * y)"
  using assms by (cases a; cases b) (auto simp: float64_ops dest: round64_Num split: if_splits)

lemma rnd_sub_rel:
  assumes "rnd x = x" "rnd y = y"
  shows "\<bar>rnd (y - x) - (y - x)\<bar> \<le> 2 powi (- 53) * \<bar>y - x\<bar>"
  using rnd_add_rel[of y "- x"] assms by (simp add: rnd_minus)

lemma rnd_half_error:
  assumes "rnd s = s"
  shows "\<bar>rnd (s / 2) - s / 2\<bar> \<le> 2 powi (- 1075)"
proof (cases "2 powi (- 1021) \<le> \<bar>s\<bar>")
  case True
  from rnd_half[OF this] assms have "rnd (s / 2) = s / 2" by (simp only:)
  with two_powi_pos(2)[of "- 1075"] show ?thesis by linarith
next
  case False
  then have "\<bar>s\<bar> < 2 powi (- 1021)" by simp
  then have "\<bar>s / 2\<bar> < 2 powi (- 1021) / 2" by simp
  then have "\<bar>s / 2\<bar> < 2 powi (- 1022)" using two_powi_half[of "- 1021"] by simp
  from ulp_small[OF this] rnd_error[of "s / 2"] have "\<bar>rnd (s / 2) - s / 2\<bar> \<le> 2 powi (- 1074) / 2"
    by simp
  then show ?thesis using two_powi_half[of "- 1074"] by simp
qed

text \<open>The error of one trapezoid, as a fact about real numbers.\<close>

lemma area_error_real:
  fixes S D sv hv dv t u e :: real
  assumes u: "0 \<le> u" and e: "0 \<le> e"
    and 1: "\<bar>sv - S\<bar> \<le> u * \<bar>S\<bar>" and 2: "\<bar>hv - sv / 2\<bar> \<le> e"
    and 3: "\<bar>dv - D\<bar> \<le> u * \<bar>D\<bar>" and 4: "\<bar>t - hv * dv\<bar> \<le> u * \<bar>hv * dv\<bar> + e"
  shows "\<bar>t - S * D / 2\<bar> \<le> ((1 + u) ^ 3 - 1) * \<bar>S * D / 2\<bar> + e * (\<bar>D\<bar> * (1 + u)\<^sup>2 + 1)"
proof -
  define X where "X = \<bar>S\<bar> * \<bar>D\<bar> / 2"
  have X: "0 \<le> X" "\<bar>S * D / 2\<bar> = X" by (simp_all add: X_def abs_mult)
  have dv: "\<bar>dv\<bar> \<le> (1 + u) * \<bar>D\<bar>" using 3 by (simp add: algebra_simps)
  have "sv * dv - S * D = (sv - S) * dv + S * (dv - D)" by (simp add: algebra_simps)
  then have "\<bar>sv * dv - S * D\<bar> \<le> \<bar>sv - S\<bar> * \<bar>dv\<bar> + \<bar>S\<bar> * \<bar>dv - D\<bar>"
    by (metis abs_mult abs_triangle_ineq)
  also have "\<dots> \<le> (u * \<bar>S\<bar>) * ((1 + u) * \<bar>D\<bar>) + \<bar>S\<bar> * (u * \<bar>D\<bar>)"
    using 1 3 dv u by (intro add_mono mult_mono) simp_all
  also have "\<dots> = ((1 + u)\<^sup>2 - 1) * (2 * X)" by (simp add: X_def power2_eq_square algebra_simps)
  finally have b: "\<bar>sv * dv - S * D\<bar> \<le> ((1 + u)\<^sup>2 - 1) * (2 * X)" .
  have "hv * dv - S * D / 2 = (sv * dv - S * D) / 2 + (hv - sv / 2) * dv" by (simp add: field_simps)
  then have "\<bar>hv * dv - S * D / 2\<bar> \<le> \<bar>sv * dv - S * D\<bar> / 2 + \<bar>hv - sv / 2\<bar> * \<bar>dv\<bar>"
    by (metis abs_divide abs_mult abs_numeral abs_triangle_ineq)
  also have "\<dots> \<le> ((1 + u)\<^sup>2 - 1) * (2 * X) / 2 + e * ((1 + u) * \<bar>D\<bar>)"
    using b 2 dv e by (intro add_mono mult_mono divide_right_mono) simp_all
  finally have c: "\<bar>hv * dv - S * D / 2\<bar> \<le> ((1 + u)\<^sup>2 - 1) * X + e * ((1 + u) * \<bar>D\<bar>)" by simp
  have "\<bar>hv * dv\<bar> \<le> \<bar>S * D / 2\<bar> + \<bar>hv * dv - S * D / 2\<bar>" by linarith
  with c X(2) have d: "\<bar>hv * dv\<bar> \<le> (1 + u)\<^sup>2 * X + e * ((1 + u) * \<bar>D\<bar>)"
    by (simp add: algebra_simps)
  have "\<bar>t - S * D / 2\<bar> \<le> \<bar>t - hv * dv\<bar> + \<bar>hv * dv - S * D / 2\<bar>" by linarith
  also have "\<dots> \<le> (u * ((1 + u)\<^sup>2 * X + e * ((1 + u) * \<bar>D\<bar>)) + e)
      + (((1 + u)\<^sup>2 - 1) * X + e * ((1 + u) * \<bar>D\<bar>))"
    using 4 c mult_left_mono[OF d u] by linarith
  also have "\<dots> = ((1 + u) ^ 3 - 1) * X + e * (\<bar>D\<bar> * (1 + u)\<^sup>2 + 1)"
    by (simp add: power2_eq_square power3_eq_cube algebra_simps)
  finally show ?thesis unfolding X(2) .
qed

text \<open>The error of one accumulation step.\<close>

lemma accumulate_error_real:
  fixes R T t A R' u :: real
  assumes u: "0 \<le> u" and 1: "\<bar>R' - (R + t)\<bar> \<le> u * \<bar>R + t\<bar>"
  shows "\<bar>R' - (T + A)\<bar> \<le> (1 + u) * (\<bar>R - T\<bar> + \<bar>t - A\<bar>) + u * \<bar>T + A\<bar>"
proof -
  have "\<bar>R + t\<bar> \<le> \<bar>T + A\<bar> + (\<bar>R - T\<bar> + \<bar>t - A\<bar>)" by linarith
  from mult_left_mono[OF this u] 1
  have "\<bar>R' - (R + t)\<bar> \<le> u * \<bar>T + A\<bar> + u * (\<bar>R - T\<bar> + \<bar>t - A\<bar>)" by (simp add: algebra_simps)
  moreover have "\<bar>R' - (T + A)\<bar> \<le> \<bar>R' - (R + t)\<bar> + (\<bar>R - T\<bar> + \<bar>t - A\<bar>)" by linarith
  ultimately show ?thesis by (simp add: algebra_simps)
qed

lemma bound_step_real:
  fixes w p e a d SA SD E ea Tabs :: real
  assumes "1 \<le> w" "1 \<le> p" "0 \<le> e" "0 \<le> a" "0 \<le> d"
    and E: "E \<le> (p * w ^ 3 - 1) * SA + e * (p * w\<^sup>2) * SD"
    and ea: "ea \<le> (w ^ 3 - 1) * a + e * (d * w\<^sup>2 + 1)"
    and T: "Tabs \<le> a + SA"
  shows "w * (E + ea) + (w - 1) * Tabs \<le> (p * w ^ 4 - 1) * (a + SA) + e * (p * w ^ 3) * (d + 1 + SD)"
proof -
  have w0: "0 \<le> w" "0 \<le> w - 1" using assms(1) by simp_all
  have "w * (E + ea) \<le> w * (((p * w ^ 3 - 1) * SA + e * (p * w\<^sup>2) * SD) + ((w ^ 3 - 1) * a + e * (d * w\<^sup>2 + 1)))"
    using E ea w0(1) by (intro mult_left_mono add_mono) simp_all
  moreover have "(w - 1) * Tabs \<le> (w - 1) * (a + SA)"
    using T w0(2) by (intro mult_left_mono) simp_all
  moreover have "w * (((p * w ^ 3 - 1) * SA + e * (p * w\<^sup>2) * SD) + ((w ^ 3 - 1) * a + e * (d * w\<^sup>2 + 1)))
      + (w - 1) * (a + SA)
      + (a * ((p - 1) * w ^ 4) + e * d * ((p - 1) * w ^ 3) + e * (p * w ^ 3 - w))
    = (p * w ^ 4 - 1) * (a + SA) + e * (p * w ^ 3) * (d + 1 + SD)"
    by (simp add: power2_eq_square power3_eq_cube power4_eq_xxxx algebra_simps)
  moreover have "0 \<le> a * ((p - 1) * w ^ 4)" using assms(1,2,4) by simp
  moreover have "0 \<le> e * d * ((p - 1) * w ^ 3)" using assms(1,2,3,5) by simp
  moreover have "0 \<le> e * (p * w ^ 3 - w)"
  proof -
    have "w = w ^ 1" by simp
    also have "\<dots> \<le> w ^ 3" using assms(1) by (intro power_increasing) simp_all
    also have "\<dots> = 1 * w ^ 3" by simp
    also have "\<dots> \<le> p * w ^ 3" using assms(1,2) by (intro mult_right_mono) simp_all
    finally show ?thesis using assms(3) by simp
  qed
  ultimately show ?thesis by linarith
qed

lemma trapezoid_f64_error:
  assumes "is_float64 (Num x)" "is_float64 (Num y)" "is_float64 (Num z0)" "is_float64 (Num z1)"
    "Num 0.5 * (Num x + Num y) * (Num z1 - Num z0) = Num t"
  shows "\<bar>t - 0.5 * (x + y) * (z1 - z0)\<bar>
      \<le> ((1 + unit_roundoff) ^ 3 - 1) * \<bar>0.5 * (x + y) * (z1 - z0)\<bar>
        + half_min_subnormal * (\<bar>z1 - z0\<bar> * (1 + unit_roundoff)\<^sup>2 + 1)"
    and "rnd t = t"
proof -
  from mul64_Num[OF assms(5)] obtain h d where
    hd: "Num 0.5 * (Num x + Num y) = Num h" "Num z1 - Num z0 = Num d" "t = rnd (h * d)" by blast
  from mul64_Num[OF hd(1)] obtain c s where
    cs: "Num 0.5 = Num c" "Num x + Num y = Num s" "h = rnd (c * s)" by blast
  from add64_Num[OF cs(2)] have s: "s = rnd (x + y)" by auto
  have c: "c = 1 / 2" using cs(1) by simp
  have "c * s = s / 2" unfolding c by simp
  then have h: "h = rnd (s / 2)" by (simp only: cs(3))
  have d: "d = rnd (z1 - z0)" using hd(2) round64_Num by (simp add: sub_doubles)
  have r: "rnd x = x" "rnd y = y" "rnd z0 = z0" "rnd z1 = z1" using assms(1-4) by simp_all
  show "rnd t = t" unfolding hd(3) by simp
  have 1: "\<bar>s - (x + y)\<bar> \<le> unit_roundoff * \<bar>x + y\<bar>"
    unfolding s unit_roundoff_def by (rule rnd_add_rel[OF r(1,2)])
  have 2: "\<bar>h - s / 2\<bar> \<le> half_min_subnormal"
    unfolding h half_min_subnormal_def by (rule rnd_half_error) (simp add: s)
  have 3: "\<bar>d - (z1 - z0)\<bar> \<le> unit_roundoff * \<bar>z1 - z0\<bar>"
    unfolding d unit_roundoff_def by (rule rnd_sub_rel[OF r(3,4)])
  have 4: "\<bar>t - h * d\<bar> \<le> unit_roundoff * \<bar>h * d\<bar> + half_min_subnormal"
    unfolding hd(3) unit_roundoff_def half_min_subnormal_def by (rule rnd_abs_error)
  have u: "0 \<le> unit_roundoff" "0 \<le> half_min_subnormal"
    by (simp_all add: unit_roundoff_def half_min_subnormal_def)
  from area_error_real[OF u 1 2 3 4]
  show "\<bar>t - 0.5 * (x + y) * (z1 - z0)\<bar>
      \<le> ((1 + unit_roundoff) ^ 3 - 1) * \<bar>0.5 * (x + y) * (z1 - z0)\<bar>
        + half_min_subnormal * (\<bar>z1 - z0\<bar> * (1 + unit_roundoff)\<^sup>2 + 1)"
    by (simp add: mult.commute)
qed

text \<open>The rounding error of the result, whenever the result is finite.\<close>

lemma integrate_from_top_f64_error:
  assumes len: "length zs = length qs" and dz: "doubles zs" and dq: "doubles qs"
    and mono: "strictly_monotonic zs"
    and res: "integrate_from_top_f64 (map Num zs) (map Num qs) = Inr r"
    and fin: "isfinite64 (r ! 0)" and i: "i < length zs"
  shows "\<exists>v. r ! i = Num v \<and>
    \<bar>v - (\<Sum>k = i..<length zs - 1. rtrap zs qs k)\<bar> \<le> rounding_bound zs qs i"
proof -
  let ?n = "length zs"
  let ?z = "map Num zs" and ?q = "map Num qs"
  let ?u = unit_roundoff and ?e = half_min_subnormal
  let ?T = "\<lambda>j. \<Sum>k = j..<?n - 1. rtrap zs qs k"
  let ?SA = "\<lambda>j. \<Sum>k = j..<?n - 1. \<bar>rtrap zs qs k\<bar>"
  let ?SD = "\<lambda>j. \<Sum>k = j..<?n - 1. \<bar>zs ! (k + 1) - zs ! k\<bar> + 1"
  have l: "length ?z = length ?q" using len by simp
  have ne: "?z \<noteq> []" using i by auto
  from integrate_from_top_f64_char[OF l] res ne have
    r: "r ! (?n - 1) = 0"
       "\<forall>j. j + 1 < ?n \<longrightarrow> r ! j = (if step_nonzero ?z j then r ! (j + 1) + trapezoid_f64 ?z ?q j else 0)"
    by auto
  have step: "r ! j = r ! (j + 1) + trapezoid_f64 ?z ?q j" if "j + 1 < ?n" for j
    using r(2) steps_nonzero_doubles[OF mono dz] that by simp
  have finite: "j < ?n \<longrightarrow> isfinite64 (r ! j)" for j
  proof (induction j)
    case 0
    then show ?case using fin by simp
  next
    case (Suc j)
    show ?case
    proof (intro impI)
      assume a: "Suc j < ?n"
      with Suc obtain v where "r ! j = Num v" by (cases "r ! j") auto
      with step[of j] a have "r ! (j + 1) + trapezoid_f64 ?z ?q j = Num v" by simp
      from add64_Num[OF this] show "isfinite64 (r ! Suc j)" by auto
    qed
  qed
  have u: "0 \<le> ?u" "0 \<le> ?e" "1 \<le> 1 + ?u"
    by (simp_all add: unit_roundoff_def half_min_subnormal_def)
  have main: "m < ?n \<longrightarrow> (\<exists>v. r ! (?n - 1 - m) = Num v \<and> rnd v = v \<and>
      \<bar>v - ?T (?n - 1 - m)\<bar> \<le> ((1 + ?u) ^ (m + 3) - 1) * ?SA (?n - 1 - m)
         + ?e * (1 + ?u) ^ (m + 2) * ?SD (?n - 1 - m))" for m
  proof (induction m)
    case 0
    then show ?case using r(1) by (simp add: zero_float64_def)
  next
    case (Suc m)
    show ?case
    proof (intro impI)
      assume a: "Suc m < ?n"
      let ?j = "?n - 1 - Suc m"
      have j: "?j + 1 = ?n - 1 - m" "?j + 1 < ?n" "m < ?n" "?j < ?n - 1" "?j < ?n" using a by auto
      from Suc j obtain v where
        v: "r ! (?j + 1) = Num v" "rnd v = v"
           "\<bar>v - ?T (?j + 1)\<bar> \<le> ((1 + ?u) ^ (m + 3) - 1) * ?SA (?j + 1)
              + ?e * (1 + ?u) ^ (m + 2) * ?SD (?j + 1)"
        by auto
      from finite[of ?j] j obtain v' where v': "r ! ?j = Num v'" by (cases "r ! ?j") auto
      with step[OF j(2)] v(1) have s: "Num v + trapezoid_f64 ?z ?q ?j = Num v'" by simp
      from add64_Num[OF s] obtain t where
        t: "trapezoid_f64 ?z ?q ?j = Num t" "v' = rnd (v + t)" by auto
      have tz: "trapezoid_f64 ?z ?q ?j
          = Num 0.5 * (Num (qs ! ?j) + Num (qs ! (?j + 1))) * (Num (zs ! (?j + 1)) - Num (zs ! ?j))"
        using j len by (simp add: trapezoid_f64_def)
      have fl: "is_float64 (Num (qs ! ?j))" "is_float64 (Num (qs ! (?j + 1)))"
        "is_float64 (Num (zs ! ?j))" "is_float64 (Num (zs ! (?j + 1)))"
        using doubles_nth[OF dq] doubles_nth[OF dz] j len by simp_all
      note te = trapezoid_f64_error[OF fl t(1)[unfolded tz]]
      have acc: "\<bar>v' - (v + t)\<bar> \<le> ?u * \<bar>v + t\<bar>"
        unfolding t(2) unit_roundoff_def by (rule rnd_add_rel[OF v(2) te(2)])
      have split: "?T ?j = ?T (?j + 1) + rtrap zs qs ?j" "?SA ?j = \<bar>rtrap zs qs ?j\<bar> + ?SA (?j + 1)"
        "?SD ?j = \<bar>zs ! (?j + 1) - zs ! ?j\<bar> + 1 + ?SD (?j + 1)"
        using j(4) by (simp_all add: sum.atLeast_Suc_lessThan)
      have Tabs: "\<bar>?T ?j\<bar> \<le> \<bar>rtrap zs qs ?j\<bar> + ?SA (?j + 1)"
        unfolding split(2)[symmetric] by (rule sum_abs)
      from accumulate_error_real[OF u(1) acc, of "?T (?j + 1)" "rtrap zs qs ?j"]
      have "\<bar>v' - ?T ?j\<bar> \<le> (1 + ?u) * (\<bar>v - ?T (?j + 1)\<bar> + \<bar>t - rtrap zs qs ?j\<bar>)
          + (1 + ?u - 1) * \<bar>?T ?j\<bar>"
        unfolding split(1) by simp
      also have "\<dots> \<le> ((1 + ?u) ^ m * (1 + ?u) ^ 4 - 1) * (\<bar>rtrap zs qs ?j\<bar> + ?SA (?j + 1))
          + ?e * ((1 + ?u) ^ m * (1 + ?u) ^ 3) * (\<bar>zs ! (?j + 1) - zs ! ?j\<bar> + 1 + ?SD (?j + 1))"
      proof (rule bound_step_real)
        show "1 \<le> 1 + ?u" by (rule u(3))
        show "1 \<le> (1 + ?u) ^ m" using u(3) by (rule one_le_power)
        show "0 \<le> ?e" by (rule u(2))
        show "0 \<le> \<bar>rtrap zs qs ?j\<bar>" "0 \<le> \<bar>zs ! (?j + 1) - zs ! ?j\<bar>" by simp_all
        show "\<bar>v - ?T (?j + 1)\<bar> \<le> ((1 + ?u) ^ m * (1 + ?u) ^ 3 - 1) * ?SA (?j + 1)
            + ?e * ((1 + ?u) ^ m * (1 + ?u)\<^sup>2) * ?SD (?j + 1)"
          using v(3) by (simp only: power_add)
        show "\<bar>t - rtrap zs qs ?j\<bar> \<le> ((1 + ?u) ^ 3 - 1) * \<bar>rtrap zs qs ?j\<bar>
            + ?e * (\<bar>zs ! (?j + 1) - zs ! ?j\<bar> * (1 + ?u)\<^sup>2 + 1)"
          by (rule te(1))
        show "\<bar>?T ?j\<bar> \<le> \<bar>rtrap zs qs ?j\<bar> + ?SA (?j + 1)" by (rule Tabs)
      qed
      also have "\<dots> = ((1 + ?u) ^ (Suc m + 3) - 1) * ?SA ?j + ?e * (1 + ?u) ^ (Suc m + 2) * ?SD ?j"
      proof -
        have e: "Suc m + 3 = m + 4" "Suc m + 2 = m + 3" by simp_all
        show ?thesis unfolding e power_add by (simp only: split(2,3))
      qed
      finally have "\<bar>v' - ?T ?j\<bar> \<le> ((1 + ?u) ^ (Suc m + 3) - 1) * ?SA ?j
          + ?e * (1 + ?u) ^ (Suc m + 2) * ?SD ?j" .
      moreover have "rnd v' = v'" unfolding t(2) by simp
      ultimately show "\<exists>v. r ! ?j = Num v \<and> rnd v = v \<and>
          \<bar>v - ?T ?j\<bar> \<le> ((1 + ?u) ^ (Suc m + 3) - 1) * ?SA ?j + ?e * (1 + ?u) ^ (Suc m + 2) * ?SD ?j"
        using v' by simp
    qed
  qed
  have "?n - 1 - i < ?n" "?n - 1 - (?n - 1 - i) = i" using i by auto
  with main[of "?n - 1 - i"] show ?thesis unfolding rounding_bound_def by auto
qed

subsection \<open>Evaluating the rounding on given numbers\<close>

lemma round64_rep:
  assumes "\<bar>m\<bar> < 2 ^ 53" "- 1074 \<le> k" "k \<le> 971"
  shows "round64 (of_int m * 2 powi k) = Num (of_int m * 2 powi k)"
proof -
  have r: "rnd (of_int m * 2 powi k) = of_int m * 2 powi k" using assms(1,2) by (rule rnd_rep)
  have "real_of_int \<bar>m\<bar> < 2 powi 53" unfolding two_powi_53 using assms(1) by (simp only: of_int_less_iff)
  then have "\<bar>of_int m * 2 powi k\<bar> < 2 powi 53 * (2::real) powi k"
    by (simp add: abs_mult)
  also have "\<dots> = 2 powi (53 + k)" by (simp add: two_powi_add)
  also have "\<dots> \<le> 2 powi 1024" using assms(3) by simp
  finally show ?thesis using r by (simp add: round64_def Let_def)
qed

lemma round64_of_int: "\<bar>m\<bar> < 2 ^ 53 \<Longrightarrow> round64 (of_int m) = Num (of_int m)"
  using round64_rep[of m 0] by simp

lemma round64_numeral [simp]:
  "(numeral n :: int) < 2 ^ 53 \<Longrightarrow> round64 (numeral n) = Num (numeral n)"
  "(numeral n :: int) < 2 ^ 53 \<Longrightarrow> round64 (- numeral n) = Num (- numeral n)"
  using round64_of_int[of "numeral n"] round64_of_int[of "- numeral n"] by simp_all

lemma round64_numeral_half [simp]:
  "(numeral n :: int) < 2 ^ 53 \<Longrightarrow> round64 (numeral n / 2) = Num (numeral n / 2)"
  using round64_rep[of "numeral n" "- 1"] by (simp add: power_int_minus field_simps)

lemma add64_QNaN [simp]: "add64 a QNaN = QNaN" "add64 QNaN a = QNaN"
  by (cases a; simp)+

lemma mul64_QNaN [simp]: "mul64 a QNaN = QNaN" "mul64 QNaN a = QNaN"
  by (cases a; simp)+

lemma round64_1 [simp]: "round64 1 = Num 1" "round64 (- 1) = Num (- 1)"
  using round64_of_int[of 1] round64_of_int[of "- 1"] by simp_all

lemma round64_two_powi:
  assumes "- 1074 \<le> k" "k \<le> 1023"
  shows "round64 (2 powi k) = Num (2 powi k)" "round64 (- (2 powi k)) = Num (- (2 powi k))"
proof -
  have r: "rnd (2 powi k) = 2 powi k" using assms(1) by (rule rnd_two_powi)
  have "(2::real) powi k < 2 powi 1024" using assms(2) by simp
  then show "round64 (2 powi k) = Num (2 powi k)" using r by (simp add: round64_def Let_def)
  then show "round64 (- (2 powi k)) = Num (- (2 powi k))" by (simp add: round64_minus)
qed

lemma round64_overflow:
  assumes "1024 \<le> k"
  shows "round64 (2 powi k) = PosInf" "round64 (- (2 powi k)) = NegInf"
proof -
  have r: "rnd (2 powi k) = 2 powi k" using assms by (intro rnd_two_powi) simp
  have "(2::real) powi 1024 \<le> 2 powi k" using assms by simp
  then show "round64 (2 powi k) = PosInf" using r by (simp add: round64_def Let_def)
  then show "round64 (- (2 powi k)) = NegInf" by (simp add: round64_minus)
qed

lemma rne_half [simp]: "rne (1 / 2) = 0"
  by (simp add: rne_def)

lemma round64_half_min_subnormal: "round64 (2 powi (- 1075)) = Num 0"
proof -
  have "\<bar>(2::real) powi (- 1075)\<bar> < 2 powi (- 1022)" by simp
  from ulp_small[OF this] have u: "ulp (2 powi (- 1075)) = 2 powi (- 1074)" .
  have "(2::real) powi (- 1075) / 2 powi (- 1074) = 2 powi (- 1)"
    by (simp add: two_powi_diff[symmetric])
  also have "\<dots> = 1 / 2" by (simp add: power_int_minus)
  finally have "mant (2 powi (- 1075)) = 0" by (simp add: mant_def u)
  then have "rnd (2 powi (- 1075)) = 0" by (simp add: rnd_mant)
  then show ?thesis by (simp add: round64_def Let_def)
qed

text \<open>
  A number in the binade of \<open>2\<^sup>e\<close> whose scaled magnitude rounds to \<open>m\<close> is rounded to
  \<open>\<plusminus> m * 2\<^sup>e\<^sup>-\<^sup>5\<^sup>2\<close>.
\<close>

lemma round64_eval:
  assumes "2 powi e \<le> \<bar>x\<bar>" "\<bar>x\<bar> < 2 powi (e + 1)" "- 1022 \<le> e" "e \<le> 1022"
    "rne (\<bar>x\<bar> / 2 powi (e - 52)) = m"
  shows "round64 x = Num (sgn x * (of_int m * 2 powi (e - 52)))"
proof -
  have e: "expo x = e" using assms(1-3) by (rule expo_eq)
  then have m: "mant x = m" using assms(5) by (simp add: mant_def ulp_def)
  have r: "rnd x = sgn x * (of_int m * 2 powi (e - 52))" by (simp add: rnd_mant m ulp_def e)
  have "\<bar>rnd x\<bar> = of_int (mant x) * ulp x" by (rule abs_rnd)
  also have "\<dots> \<le> 2 powi 53 * ulp x" using mant_le_real[of x] by (intro mult_right_mono) (simp_all add: less_imp_le)
  also have "\<dots> = 2 powi (e + 1)" by (simp add: ulp_def e two_powi_add[symmetric] ac_simps)
  also have "\<dots> < 2 powi 1024" using assms(4) by simp
  finally show ?thesis using r by (simp add: round64_def Let_def)
qed

lemma is_float64_numeral [simp]:
  "(numeral n :: int) < 2 ^ 53 \<Longrightarrow> is_float64 (Num (numeral n))"
  "(numeral n :: int) < 2 ^ 53 \<Longrightarrow> is_float64 (Num (- numeral n))"
  using is_float64_round64[of "numeral n"] is_float64_round64[of "- numeral n"]
  by (simp_all del: is_float64.simps is_float64_round64)

lemma is_float64_1 [simp]: "is_float64 (Num 1)"
  using is_float64_round64[of 1] by (simp del: is_float64.simps is_float64_round64)

lemma is_float64_rep:
  assumes "\<bar>m\<bar> < 2 ^ 53" "- 1074 \<le> k" "k \<le> 971"
  shows "is_float64 (Num (of_int m * 2 powi k))"
  using is_float64_round64[of "of_int m * 2 powi k"] round64_rep[OF assms]
  by (simp del: is_float64.simps is_float64_round64)

lemmas f64_eval = integrate_from_top_f64_def top_loop_f64_Suc trapezoid_f64_def step_nonzero_def
  float64_ops

lemma two_powi_double': "(2::real) powi k * 2 = 2 powi (k + 1)"
  using two_powi_double[of k] by (simp add: mult.commute)

lemmas two_powi_eval = two_powi_double two_powi_double' two_powi_half round64_two_powi
  round64_overflow

lemma two_powi_neg_numeral: "(2::real) powi (- numeral k) = 1 / 2 ^ numeral k"
  by (simp add: power_int_minus power_int_numeral field_simps)

lemma max_float_ge: "x \<le> 2 powi 1023 \<Longrightarrow> x \<le> max_float"
proof -
  assume x: "x \<le> 2 powi 1023"
  have "(2::real) powi 52 + 2 powi 0 \<le> 2 powi 52 + 2 powi 52" by (intro add_mono) simp_all
  also have "\<dots> = 2 powi 53" using two_powi_double[of 52] by simp
  finally have "(2::real) powi 52 \<le> 2 powi 53 - 1" by simp
  then have "2 powi 52 * 2 powi 971 \<le> (2 powi 53 - 1) * (2::real) powi 971"
    by (intro mult_right_mono) simp_all
  moreover have "(2::real) powi 52 * 2 powi 971 = 2 powi 1023" by (simp add: two_powi_add[symmetric])
  ultimately show ?thesis using x by (simp add: max_float_def)
qed

lemma min_normal_le: "1 \<le> x \<Longrightarrow> 2 powi (- 1021) \<le> (x::real)"
proof -
  assume "1 \<le> x"
  moreover have "(2::real) powi (- 1021) \<le> 2 powi 0" by (simp only: two_powi_le_iff)
  ultimately show ?thesis by simp
qed

text \<open>
  The roundings of the run on the doubles \<open>[0, 0.1, 0.3]\<close> with the constant rate 3: the
  two steps are exact, the two areas and the closed form \<open>3 * 0.3\<close> are rounded.
\<close>

lemma rounding_example:
  "round64 (3602879701896397 / 36028797018963968) = Num (3602879701896397 / 36028797018963968)"
  "round64 (7205759403792793 / 36028797018963968) = Num (7205759403792793 / 36028797018963968)"
  "round64 (5404319552844595 / 9007199254740992) = Num (5404319552844595 / 9007199254740992)"
  "round64 (8106479329266893 / 9007199254740992) = Num (8106479329266893 / 9007199254740992)"
  "round64 (5404319552844595 / 18014398509481984) = Num (5404319552844595 / 18014398509481984)"
  "round64 (21617278211378379 / 36028797018963968) = Num (5404319552844595 / 9007199254740992)"
  "round64 (10808639105689191 / 36028797018963968) = Num (1351079888211149 / 4503599627370496)"
  "round64 (16212958658533785 / 18014398509481984) = Num (2026619832316723 / 2251799813685248)"
  using round64_rep[of 3602879701896397 "- 55"] round64_rep[of 7205759403792793 "- 55"]
    round64_rep[of 5404319552844595 "- 53"] round64_rep[of 8106479329266893 "- 53"]
    round64_rep[of 5404319552844595 "- 54"]
    round64_eval[of "- 1" "21617278211378379 / 36028797018963968" 5404319552844595]
    round64_eval[of "- 2" "10808639105689191 / 36028797018963968" 5404319552844596]
    round64_eval[of "- 1" "16212958658533785 / 18014398509481984" 8106479329266892]
  by (simp_all add: two_powi_neg_numeral rne_def Let_def)

lemma abs_step_sum:
  assumes "strictly_monotonic zs" "i < length zs"
  shows "(\<Sum>k = i..<length zs - 1. \<bar>zs ! (k + 1) - zs ! k\<bar>) = \<bar>zs ! (length zs - 1) - zs ! i\<bar>"
proof -
  let ?n = "length zs"
  have i: "i \<le> ?n - 1" using assms(2) by simp
  from assms(1) consider "sorted_wrt (<) zs" | "sorted_wrt (>) zs"
    by (auto simp: strictly_monotonic_def)
  then show ?thesis
  proof cases
    case 1
    have "(\<Sum>k = i..<?n - 1. \<bar>zs ! (k + 1) - zs ! k\<bar>) = (\<Sum>k = i..<?n - 1. zs ! Suc k - zs ! k)"
    proof (intro sum.cong refl)
      fix k assume "k \<in> {i..<?n - 1}"
      then have "Suc k < ?n" by auto
      from sorted_wrt_nth_less[OF 1 _ this, of k] show "\<bar>zs ! (k + 1) - zs ! k\<bar> = zs ! Suc k - zs ! k"
        by simp
    qed
    also have "\<dots> = zs ! (?n - 1) - zs ! i" using i by (rule telescope)
    also have "\<dots> = \<bar>zs ! (?n - 1) - zs ! i\<bar>"
    proof (cases "i = ?n - 1")
      case True
      then show ?thesis by simp
    next
      case False
      with assms(2) have "i < ?n - 1" "?n - 1 < ?n" by auto
      from sorted_wrt_nth_less[OF 1 this] show ?thesis by simp
    qed
    finally show ?thesis .
  next
    case 2
    have "(\<Sum>k = i..<?n - 1. \<bar>zs ! (k + 1) - zs ! k\<bar>) = (\<Sum>k = i..<?n - 1. - zs ! Suc k - - zs ! k)"
    proof (intro sum.cong refl)
      fix k assume "k \<in> {i..<?n - 1}"
      then have "Suc k < ?n" by auto
      from sorted_wrt_nth_less[OF 2 _ this, of k] show "\<bar>zs ! (k + 1) - zs ! k\<bar> = - zs ! Suc k - - zs ! k"
        by simp
    qed
    also have "\<dots> = - zs ! (?n - 1) - - zs ! i" using i by (rule telescope[of i "?n - 1" "\<lambda>j. - zs ! j"])
    also have "\<dots> = \<bar>zs ! (?n - 1) - zs ! i\<bar>"
    proof (cases "i = ?n - 1")
      case True
      then show ?thesis by simp
    next
      case False
      with assms(2) have "i < ?n - 1" "?n - 1 < ?n" by auto
      from sorted_wrt_nth_less[OF 2 this] show ?thesis by simp
    qed
    finally show ?thesis .
  qed
qed

lemma rtrap_constant_abs_sum:
  assumes "strictly_monotonic zs" "i < length zs"
  shows "(\<Sum>k = i..<length zs - 1. \<bar>rtrap zs (map (\<lambda>z. C) zs) k\<bar>)
    = \<bar>C\<bar> * \<bar>zs ! (length zs - 1) - zs ! i\<bar>"
proof -
  have "(\<Sum>k = i..<length zs - 1. \<bar>rtrap zs (map (\<lambda>z. C) zs) k\<bar>)
      = (\<Sum>k = i..<length zs - 1. \<bar>C\<bar> * \<bar>zs ! (k + 1) - zs ! k\<bar>)"
  proof (intro sum.cong refl)
    fix k assume "k \<in> {i..<length zs - 1}"
    then have "k < length zs" "Suc k < length zs" by auto
    then show "\<bar>rtrap zs (map (\<lambda>z. C) zs) k\<bar> = \<bar>C\<bar> * \<bar>zs ! (k + 1) - zs ! k\<bar>"
      by (simp add: abs_mult)
  qed
  also have "\<dots> = \<bar>C\<bar> * (\<Sum>k = i..<length zs - 1. \<bar>zs ! (k + 1) - zs ! k\<bar>)"
    by (simp add: sum_distrib_left)
  finally show ?thesis by (simp only: abs_step_sum[OF assms])
qed

lemma rounding_bound_constant:
  assumes "strictly_monotonic zs" "i < length zs"
  shows "rounding_bound zs (map (\<lambda>z. C) zs) i
    = ((1 + unit_roundoff) ^ (length zs - 1 - i + 3) - 1) * (\<bar>C\<bar> * \<bar>zs ! (length zs - 1) - zs ! i\<bar>)
      + half_min_subnormal * (1 + unit_roundoff) ^ (length zs - 1 - i + 2)
          * (\<bar>zs ! (length zs - 1) - zs ! i\<bar> + real (length zs - 1 - i))"
proof -
  have "(\<Sum>k = i..<length zs - 1. \<bar>zs ! (k + 1) - zs ! k\<bar> + 1)
      = (\<Sum>k = i..<length zs - 1. \<bar>zs ! (k + 1) - zs ! k\<bar>) + real (length zs - 1 - i)"
    by (simp add: sum.distrib)
  then show ?thesis
    unfolding rounding_bound_def rtrap_constant_abs_sum[OF assms] abs_step_sum[OF assms] by simp
qed

text \<open>The factors of the bound for arrays of at most \<open>2\<^sup>5\<^sup>1\<close> elements.\<close>

lemma one_plus_power_le:
  fixes x :: real
  assumes "0 \<le> x" "real k * x \<le> 1"
  shows "(1 + x) ^ k \<le> 1 + 2 * (real k * x)"
proof -
  have e: "1 + x \<le> exp x" by (rule exp_ge_add_one_self)
  have p: "0 \<le> 1 + x" using assms(1) by linarith
  have "(1 + x) ^ k \<le> exp x ^ k" by (rule power_mono[OF e p])
  also have "\<dots> = exp (real k * x)" by (simp add: exp_of_nat_mult)
  also have "\<dots> \<le> 1 + real k * x + (real k * x)\<^sup>2"
    using assms by (intro exp_bound) simp_all
  also have "\<dots> \<le> 1 + 2 * (real k * x)"
  proof -
    have "0 \<le> real k * x" using assms(1) by simp
    with assms(2) have "(real k * x) * (real k * x) \<le> 1 * (real k * x)"
      by (intro mult_right_mono) simp_all
    then have "(real k * x)\<^sup>2 \<le> real k * x" unfolding power2_eq_square by linarith
    then show ?thesis by linarith
  qed
  finally show ?thesis .
qed

lemma rounding_bound_le:
  assumes "length zs \<le> 2 ^ 51" "i < length zs"
  shows "rounding_bound zs qs i
    \<le> real (length zs - 1 - i + 3) * 2 powi (- 52) * (\<Sum>k = i..<length zs - 1. \<bar>rtrap zs qs k\<bar>)
      + 2 powi (- 1074) * (\<Sum>k = i..<length zs - 1. \<bar>zs ! (k + 1) - zs ! k\<bar> + 1)"
proof -
  let ?m = "length zs - 1 - i"
  let ?u = "(2::real) powi (- 53)"
  have n: "real (length zs) \<le> 2 powi 51"
  proof -
    have "real (length zs) \<le> real (2 ^ 51)" using assms(1) by (simp only: of_nat_le_iff)
    also have "\<dots> = 2 powi 51" using two_powi_nat[of 51] by simp
    finally show ?thesis .
  qed
  have "(2::real) \<le> 2 powi 51" using two_powi_le_iff[of 1 51] by simp
  then have "real (?m + 3) \<le> 2 powi 51 + 2 powi 51" using n assms(2) by simp
  also have "\<dots> = 2 powi 52" using two_powi_double[of 51] by simp
  finally have m3: "real (?m + 3) \<le> 2 powi 52" .
  then have m2: "real (?m + 2) \<le> 2 powi 52" by simp
  have "real (?m + 3) * ?u \<le> 2 powi 52 * ?u" using m3 by (intro mult_right_mono) simp_all
  also have "\<dots> = 2 powi (- 1)" by (simp add: two_powi_add[symmetric])
  also have "\<dots> = 1 / 2" by (simp add: power_int_minus)
  finally have a3: "real (?m + 3) * ?u \<le> 1 / 2" .
  have "real (?m + 2) * ?u \<le> real (?m + 3) * ?u" by (intro mult_right_mono) simp_all
  with a3 have a2: "real (?m + 2) * ?u \<le> 1 / 2" by linarith
  have p3: "(1 + ?u) ^ (?m + 3) \<le> 1 + 2 * (real (?m + 3) * ?u)"
    using a3 by (intro one_plus_power_le) simp_all
  have p2: "(1 + ?u) ^ (?m + 2) \<le> 1 + 2 * (real (?m + 2) * ?u)"
    using a2 by (intro one_plus_power_le) simp_all
  have u2: "2 * ?u = 2 powi (- 52)" using two_powi_double[of "- 53"] by simp
  have f1: "(1 + ?u) ^ (?m + 3) - 1 \<le> real (?m + 3) * 2 powi (- 52)"
  proof -
    have "2 * (real (?m + 3) * ?u) = real (?m + 3) * 2 powi (- 52)"
      unfolding u2[symmetric] by simp
    with p3 show ?thesis by linarith
  qed
  have f2: "(1 + ?u) ^ (?m + 2) \<le> 2" using p2 a2 by linarith
  have "2 powi (- 1075) * (1 + ?u) ^ (?m + 2) \<le> 2 powi (- 1075) * (2::real)"
    using f2 by (intro mult_left_mono) simp_all
  also have "\<dots> = 2 powi (- 1074)" using two_powi_double'[of "- 1075"] by simp
  finally have f3: "2 powi (- 1075) * (1 + ?u) ^ (?m + 2) \<le> (2::real) powi (- 1074)" .
  have sa: "0 \<le> (\<Sum>k = i..<length zs - 1. \<bar>rtrap zs qs k\<bar>)" by (intro sum_nonneg) simp
  have sd: "0 \<le> (\<Sum>k = i..<length zs - 1. \<bar>zs ! (k + 1) - zs ! k\<bar> + 1)" by (intro sum_nonneg) simp
  show ?thesis
    unfolding rounding_bound_def unit_roundoff_def half_min_subnormal_def
    using mult_right_mono[OF f1 sa] mult_right_mono[OF f3 sd] by (intro add_mono) simp_all
qed

section \<open>Reversing the storage order\<close>

text \<open>
  C3, as the code has it: the loop never compares the two ends of the grid, it anchors the
  zero at the last stored index. On every strictly monotonic grid of doubles with an
  aligned rate profile (any doubles, NaN and the infinities included), calling it on the
  reversed pair returns, entry by entry in double precision (up to the sign of a zero),
  the negated reversal of the forward cumulative trapezoid of the original pair, the one
  that \<open>test_flip_cumtrapz_flip\<close> accumulates from index 0: position \<open>n - 1 - j\<close> of the
  result holds minus the value accumulated from index 0 to \<open>j\<close>.
\<close>

theorem integrate_from_top_f64_reversed:
  assumes "length zs = length q" "strictly_monotonic zs" "doubles zs"
  shows "\<exists>f. manual_cumtrapz (map Num zs) q = Inr f \<and>
    integrate_from_top_f64 (rev (map Num zs)) (rev q) = Inr (rev (map uminus f))"
proof -
  have "length (map Num zs) = length q" using assms(1) by simp
  from integrate_from_top_f64_rev[OF this steps_nonzero_doubles[OF assms(2,3)]]
  show ?thesis .
qed

text \<open>
  C3 as stated fails: on \<open>[0, 10]\<close> with rate \<open>[1, 1]\<close> the result is \<open>[10, 0]\<close>, and on
  the reversed pair it is \<open>[-10, 0]\<close>, not the reversal \<open>[0, 10]\<close>; in exact arithmetic
  and in double precision alike.
\<close>

theorem reversal_counterexample:
  "integrate_from_top [Fin 0, Fin 10] [Fin 1, Fin 1] = Inr [Fin 10, Fin 0] \<and>
   integrate_from_top (rev [Fin 0, Fin 10]) (rev [Fin 1, Fin 1]) = Inr [Fin (- 10), Fin 0] \<and>
   integrate_from_top (rev [Fin 0, Fin 10]) (rev [Fin 1, Fin 1]) \<noteq> Inr (rev [Fin 10, Fin 0]) \<and>
   integrate_from_top_f64 [Num 0, Num 10] [Num 1, Num 1] = Inr [Num 10, Num 0] \<and>
   integrate_from_top_f64 (rev [Num 0, Num 10]) (rev [Num 1, Num 1]) = Inr [Num (- 10), Num 0] \<and>
   integrate_from_top_f64 (rev [Num 0, Num 10]) (rev [Num 1, Num 1]) \<noteq> Inr (rev [Num 10, Num 0])"
  by (simp add: integrate_from_top_def top_loop_Suc trapezoid_def f64_eval)

text \<open>The theorem at the grid \<open>[0, 1, 3]\<close> with the rates \<open>[2, 4, 6]\<close>.\<close>

theorem integrate_from_top_f64_reversed_witness:
  "length [0, 1, 3::real] = length [Num 2, Num 4, Num 6] \<and> strictly_monotonic [0, 1, 3] \<and>
   doubles [0, 1, 3] \<and>
   manual_cumtrapz (map Num [0, 1, 3]) [Num 2, Num 4, Num 6] = Inr [Num 0, Num 3, Num 13] \<and>
   integrate_from_top_f64 (rev (map Num [0, 1, 3])) (rev [Num 2, Num 4, Num 6])
     = Inr [Num (- 13), Num (- 3), Num 0]"
proof -
  let ?zs = "[0, 1, 3::real]" and ?q = "[Num 2, Num 4, Num 6]"
  have h1: "length ?zs = length ?q" by simp
  have h2: "strictly_monotonic ?zs" by (simp add: strictly_monotonic_def)
  have h3: "doubles ?zs" by (simp add: doubles_def del: is_float64.simps)
  have e: "manual_cumtrapz (map Num ?zs) ?q = Inr [Num 0, Num 3, Num 13]"
    by (simp add: manual_cumtrapz_def upt_rec float64_ops Let_def)
  from integrate_from_top_f64_reversed[OF h1 h2 h3] obtain f where
    f: "manual_cumtrapz (map Num ?zs) ?q = Inr f"
       "integrate_from_top_f64 (rev (map Num ?zs)) (rev ?q) = Inr (rev (map uminus f))"
    by blast
  from f(1) e have "f = [Num 0, Num 3, Num 13]" by simp
  with f(2) have r: "integrate_from_top_f64 (rev (map Num ?zs)) (rev ?q)
      = Inr [Num (- 13), Num (- 3), Num 0]"
    by (simp add: uminus_float64_def)
  from h1 h2 h3 e r show ?thesis by (intro conjI)
qed

section \<open>NaN propagation\<close>

text \<open>
  C4, as the code has it: on every strictly monotonic grid of doubles and every aligned
  rate profile of doubles with a NaN at index \<open>k\<close>, nothing is raised, the result is NaN
  at every index \<open>i \<le> k\<close> other than the last one, those whose accumulation path from the
  last index uses a trapezoid touching \<open>k\<close>, and the last entry is 0. The entries beyond
  \<open>k\<close> are those that the rates beyond \<open>k\<close> alone determine: whatever is stored at the
  indices up to \<open>k\<close>, they are the same. They are finite, so that the result is NaN at
  exactly the indices \<open>i \<le> k\<close>, \<open>i < n - 1\<close>, whenever nothing overflows beyond \<open>k\<close>: for
  rates beyond \<open>k\<close> of magnitude at most \<open>2\<^sup>a\<close> and steps beyond \<open>k\<close> of magnitude at most
  \<open>2\<^sup>b\<close> with \<open>a, b \<ge> 0\<close>, \<open>n * 2\<^sup>a\<^sup>+\<^sup>b < 2\<^sup>1\<^sup>0\<^sup>2\<^sup>4\<close> and \<open>n \<le> 2\<^sup>5\<^sup>3\<close>.
\<close>

theorem integrate_from_top_f64_nan_propagation:
  assumes "length zs = length q" "strictly_monotonic zs" "doubles zs" "k < length q"
    "isnan64 (q ! k)"
  shows "\<exists>r. integrate_from_top_f64 (map Num zs) q = Inr r \<and> length r = length zs \<and>
    (\<forall>i. i \<le> k \<and> i < length zs - 1 \<longrightarrow> isnan64 (r ! i)) \<and>
    r ! (length zs - 1) = 0 \<and>
    (\<forall>q'. length q' = length q \<and> (\<forall>j. k < j \<and> j < length q \<longrightarrow> q' ! j = q ! j) \<longrightarrow>
       (\<exists>r'. integrate_from_top_f64 (map Num zs) q' = Inr r' \<and>
          (\<forall>i. k < i \<and> i < length zs \<longrightarrow> r' ! i = r ! i))) \<and>
    (\<forall>a b. 0 \<le> a \<and> 0 \<le> b \<and> length zs \<le> 2 ^ 53 \<and>
         real (length zs) * 2 powi (a + b) < 2 powi 1024 \<and>
         (\<forall>j. k < j \<and> j < length zs \<longrightarrow> (\<exists>x. q ! j = Num x \<and> \<bar>x\<bar> \<le> 2 powi a)) \<and>
         (\<forall>j. k < j \<and> j + 1 < length zs \<longrightarrow> \<bar>zs ! (j + 1) - zs ! j\<bar> \<le> 2 powi b) \<longrightarrow>
       (\<forall>i. k < i \<and> i < length zs \<longrightarrow> isfinite64 (r ! i)) \<and>
       (\<forall>i<length zs. isnan64 (r ! i) \<longleftrightarrow> i \<le> k \<and> i < length zs - 1))"
proof -
  let ?z = "map Num zs"
  let ?n = "length zs"
  have len: "length ?z = length q" using assms(1) by simp
  have ne: "?z \<noteq> []" using assms(1,4) by auto
  note nz = steps_nonzero_doubles[OF assms(2,3)]
  from integrate_from_top_f64_char[OF len] ne obtain r where
    r: "integrate_from_top_f64 ?z q = Inr r" "length r = ?n" "r ! (?n - 1) = 0" by auto
  have 1: "isnan64 (r ! i)" if "i \<le> k \<and> i < ?n - 1" for i
    using integrate_from_top_f64_nan[OF len nz assms(4,5) r(1), of i] that by simp
  have 2: "\<exists>r'. integrate_from_top_f64 ?z q' = Inr r' \<and> (\<forall>i. k < i \<and> i < ?n \<longrightarrow> r' ! i = r ! i)"
    if q': "length q' = length q \<and> (\<forall>j. k < j \<and> j < length q \<longrightarrow> q' ! j = q ! j)" for q'
  proof -
    have len': "length ?z = length q'" using q' assms(1) by simp
    from integrate_from_top_f64_char[OF len'] obtain r' where
      r': "integrate_from_top_f64 ?z q' = Inr r'" by auto
    have "\<forall>j. k < j \<and> j < length ?z \<longrightarrow> q' ! j = q ! j" using q' assms(1) by simp
    from integrate_from_top_f64_tail[OF len len' this r(1) r'] r' show ?thesis by auto
  qed
  have 3: "isfinite64 (r ! i)"
    if b: "0 \<le> a \<and> 0 \<le> b \<and> ?n \<le> 2 ^ 53 \<and> real ?n * 2 powi (a + b) < 2 powi 1024 \<and>
         (\<forall>j. k < j \<and> j < ?n \<longrightarrow> (\<exists>x. q ! j = Num x \<and> \<bar>x\<bar> \<le> 2 powi a)) \<and>
         (\<forall>j. k < j \<and> j + 1 < ?n \<longrightarrow> \<bar>zs ! (j + 1) - zs ! j\<bar> \<le> 2 powi b)"
      and i: "k < i \<and> i < ?n" for a b i
  proof -
    have "1 * 2 powi (a + b) \<le> real ?n * 2 powi (a + b)"
      using i by (intro mult_right_mono) simp_all
    with b have "(2::real) powi (a + b) < 2 powi 1024" by linarith
    then have "a + b < 1024" by simp
    with b have b1024: "(2::real) powi b < 2 powi 1024" by simp
    have rb: "rnd (2 powi b) = 2 powi b" using b by (intro rnd_two_powi) simp
    have z: "\<forall>j. k < j \<and> j + 1 < length ?z \<longrightarrow> (\<exists>d. ?z ! (j + 1) - ?z ! j = Num d \<and> \<bar>d\<bar> \<le> 2 powi b)"
    proof (intro allI impI)
      fix j assume j: "k < j \<and> j + 1 < length ?z"
      with b have "\<bar>zs ! (j + 1) - zs ! j\<bar> \<le> 2 powi b" by simp
      from round64_bound[OF this rb b1024] show "\<exists>d. ?z ! (j + 1) - ?z ! j = Num d \<and> \<bar>d\<bar> \<le> 2 powi b"
        using j by (auto simp: sub_doubles)
    qed
    have q: "\<forall>j. k < j \<and> j < length ?z \<longrightarrow> (\<exists>x. q ! j = Num x \<and> \<bar>x\<bar> \<le> 2 powi a)"
      using b by simp
    from integrate_from_top_f64_finite[OF len r(1) q z, of i] b i
    obtain v where "r ! i = Num v" by auto
    then show ?thesis by simp
  qed
  have 4: "isnan64 (r ! i) \<longleftrightarrow> i \<le> k \<and> i < ?n - 1"
    if b: "0 \<le> a \<and> 0 \<le> b \<and> ?n \<le> 2 ^ 53 \<and> real ?n * 2 powi (a + b) < 2 powi 1024 \<and>
         (\<forall>j. k < j \<and> j < ?n \<longrightarrow> (\<exists>x. q ! j = Num x \<and> \<bar>x\<bar> \<le> 2 powi a)) \<and>
         (\<forall>j. k < j \<and> j + 1 < ?n \<longrightarrow> \<bar>zs ! (j + 1) - zs ! j\<bar> \<le> 2 powi b)"
      and i: "i < ?n" for a b i
  proof (cases "i \<le> k \<and> i < ?n - 1")
    case True
    with 1 show ?thesis by simp
  next
    case False
    then consider "k < i" | "i = ?n - 1" using i by linarith
    then have "\<not> isnan64 (r ! i)"
    proof cases
      case 1
      with 3[OF b, of i] i have "isfinite64 (r ! i)" by simp
      then show ?thesis by (cases "r ! i") simp_all
    next
      case 2
      then show ?thesis using r(3) by (simp add: zero_float64_def)
    qed
    with False show ?thesis by simp
  qed
  from r 1 2 3 4 show ?thesis by blast
qed

text \<open>
  C4 as stated fails on a decreasing grid with the NaN at index 0: the path from the top
  index 0 to index 1 uses the NaN trapezoid, yet the result at index 1 is finite, and the
  result at the top index itself is NaN. And an index on the far side of the NaN need not
  be finite: on \<open>[0, 1, 2, 3, 4]\<close> with the rates \<open>[nan, 2\<^sup>1\<^sup>0\<^sup>2\<^sup>3, 2\<^sup>1\<^sup>0\<^sup>2\<^sup>3, -2\<^sup>1\<^sup>0\<^sup>2\<^sup>3, -2\<^sup>1\<^sup>0\<^sup>2\<^sup>3]\<close> the
  rate sums overflow and the result is \<open>[nan, nan, -inf, -inf, 0]\<close>, NaN at index 1 beyond
  the NaN of the rates.
\<close>

theorem nan_path_counterexample:
  "top_index [Fin 2, Fin 1, Fin 0] = 0 \<and>
   integrate_from_top [Fin 2, Fin 1, Fin 0] [NaN, Fin 1, Fin 1] = Inr [NaN, Fin (- 1), Fin 0] \<and>
   isnan (path_sum [Fin 2, Fin 1, Fin 0] [NaN, Fin 1, Fin 1] 1) \<and>
   \<not> isnan ([NaN, Fin (- 1), Fin 0] ! 1) \<and>
   isnan ([NaN, Fin (- 1), Fin 0] ! top_index [Fin 2, Fin 1, Fin 0]) \<and>
   integrate_from_top_f64 [Num 2, Num 1, Num 0] [QNaN, Num 1, Num 1] = Inr [QNaN, Num (- 1), Num 0] \<and>
   integrate_from_top_f64 (map Num [0, 1, 2, 3, 4])
     [QNaN, Num (2 powi 1023), Num (2 powi 1023), Num (- (2 powi 1023)), Num (- (2 powi 1023))]
     = Inr [QNaN, QNaN, NegInf, NegInf, Num 0] \<and>
   isnan64 ([QNaN, QNaN, NegInf, NegInf, Num 0] ! 1) \<and>
   \<not> isfinite64 ([QNaN, QNaN, NegInf, NegInf, Num 0] ! 2)"
  by (simp add: integrate_from_top_def top_loop_Suc trapezoid_def top_index_def path_sum_def
      zero_pyfloat_def f64_eval two_powi_eval)

text \<open>
  The theorem at the grid \<open>[100, ..., 500]\<close> with the NaN at index 2, and rates and steps
  bounded by \<open>2\<close> and \<open>2\<^sup>7\<close>.
\<close>

theorem integrate_from_top_f64_nan_propagation_witness:
  "length [100, 200, 300, 400, 500::real] = length [Num 5, Num 4, QNaN, Num 2, Num 1] \<and>
   strictly_monotonic [100, 200, 300, 400, 500] \<and> doubles [100, 200, 300, 400, 500] \<and>
   (2::nat) < length [Num 5, Num 4, QNaN, Num 2, Num 1] \<and>
   isnan64 ([Num 5, Num 4, QNaN, Num 2, Num 1] ! 2) \<and>
   integrate_from_top_f64 (map Num [100, 200, 300, 400, 500]) [Num 5, Num 4, QNaN, Num 2, Num 1]
     = Inr [QNaN, QNaN, QNaN, Num 150, Num 0] \<and>
   isnan64 ([QNaN, QNaN, QNaN, Num 150, Num 0] ! 2) \<and>
   isfinite64 ([QNaN, QNaN, QNaN, Num 150, Num 0] ! 3) \<and>
   integrate_from_top_f64 (map Num [100, 200, 300, 400, 500]) [Num 7, QNaN, Num 9, Num 2, Num 1]
     = Inr [QNaN, QNaN, Num 700, Num 150, Num 0]"
proof -
  let ?zs = "[100, 200, 300, 400, 500::real]" and ?q = "[Num 5, Num 4, QNaN, Num 2, Num 1]"
  let ?q' = "[Num 7, QNaN, Num 9, Num 2, Num 1]"
  have h1: "length ?zs = length ?q" by simp
  have h2: "strictly_monotonic ?zs" by (simp add: strictly_monotonic_def)
  have h3: "doubles ?zs" by (simp add: doubles_def del: is_float64.simps)
  have h4: "(2::nat) < length ?q" by simp
  have h5: "isnan64 (?q ! 2)" by simp
  have e: "integrate_from_top_f64 (map Num ?zs) ?q = Inr [QNaN, QNaN, QNaN, Num 150, Num 0]"
    by (simp add: f64_eval)
  have e': "integrate_from_top_f64 (map Num ?zs) ?q' = Inr [QNaN, QNaN, Num 700, Num 150, Num 0]"
    by (simp add: f64_eval)
  from integrate_from_top_f64_nan_propagation[OF h1 h2 h3 h4 h5] obtain r where
    r: "integrate_from_top_f64 (map Num ?zs) ?q = Inr r"
       "\<forall>i. i \<le> 2 \<and> i < length ?zs - 1 \<longrightarrow> isnan64 (r ! i)"
       "\<forall>a b. 0 \<le> a \<and> 0 \<le> b \<and> length ?zs \<le> 2 ^ 53 \<and>
         real (length ?zs) * 2 powi (a + b) < 2 powi 1024 \<and>
         (\<forall>j. 2 < j \<and> j < length ?zs \<longrightarrow> (\<exists>x. ?q ! j = Num x \<and> \<bar>x\<bar> \<le> 2 powi a)) \<and>
         (\<forall>j. 2 < j \<and> j + 1 < length ?zs \<longrightarrow> \<bar>?zs ! (j + 1) - ?zs ! j\<bar> \<le> 2 powi b) \<longrightarrow>
       (\<forall>i. 2 < i \<and> i < length ?zs \<longrightarrow> isfinite64 (r ! i)) \<and>
       (\<forall>i<length ?zs. isnan64 (r ! i) \<longleftrightarrow> i \<le> 2 \<and> i < length ?zs - 1)"
    by blast
  from r(1) e have req: "r = [QNaN, QNaN, QNaN, Num 150, Num 0]" by simp
  from r(2)[rule_format, of 2] have n2: "isnan64 (r ! 2)" by simp
  have b1: "real (length ?zs) * 2 powi (1 + 7) < 2 powi 1024"
  proof -
    have "real (length ?zs) * 2 powi (1 + 7) \<le> 2 powi 3 * 2 powi 8"
      by (simp add: power_int_numeral)
    also have "\<dots> = 2 powi 11" by (simp add: two_powi_add[symmetric])
    also have "\<dots> < 2 powi 1024" by simp
    finally show ?thesis .
  qed
  have b2: "\<forall>j. 2 < j \<and> j < length ?zs \<longrightarrow> (\<exists>x. ?q ! j = Num x \<and> \<bar>x\<bar> \<le> 2 powi 1)"
  proof (intro allI impI)
    fix j :: nat assume "2 < j \<and> j < length ?zs"
    then have "j = 3 \<or> j = 4" by auto
    then show "\<exists>x. ?q ! j = Num x \<and> \<bar>x\<bar> \<le> 2 powi 1" by auto
  qed
  have b3: "\<forall>j. 2 < j \<and> j + 1 < length ?zs \<longrightarrow> \<bar>?zs ! (j + 1) - ?zs ! j\<bar> \<le> 2 powi 7"
  proof (intro allI impI)
    fix j :: nat assume "2 < j \<and> j + 1 < length ?zs"
    then have "j = 3" by auto
    then show "\<bar>?zs ! (j + 1) - ?zs ! j\<bar> \<le> 2 powi 7" by (simp add: power_int_numeral)
  qed
  have "isfinite64 (r ! 3)"
    using r(3)[rule_format, of 1 7, THEN conjunct1, rule_format, of 3] b1 b2 b3 by simp
  with h1 h2 h3 h4 h5 e e' n2 show ?thesis unfolding req by (intro conjI)
qed

section \<open>Exactness on constant and linear profiles, in double precision\<close>




section \<open>Magnitude grows away from the last index\<close>

text \<open>
  C7, as the code has it: on every strictly monotonic grid of doubles whose extent
  \<open>|altitude[n-1] - altitude[0]|\<close> does not exceed the largest double, so that no step
  overflows, and every aligned rate profile with \<open>rate[j] >= 0\<close> throughout (\<open>+inf\<close>
  allowed), nothing is raised, no entry of the result is NaN, and the magnitude of the
  result is non-decreasing as the index moves away from the last index:
  \<open>|result[j]| <= |result[i]|\<close> whenever \<open>i \<le> j\<close>, in double precision, where an entry may
  be infinite. On an increasing grid the last index is the top index.
\<close>

theorem integrate_from_top_f64_magnitude:
  assumes "length zs = length q" "strictly_monotonic zs" "doubles zs"
    "\<bar>last zs - hd zs\<bar> \<le> max_float" "\<forall>j<length q. le64 0 (q ! j)"
  shows "\<exists>r. integrate_from_top_f64 (map Num zs) q = Inr r \<and> length r = length zs \<and>
    (\<forall>i<length zs. \<not> isnan64 (r ! i)) \<and>
    (\<forall>i j. i \<le> j \<and> j < length zs \<longrightarrow> le64 (abs64 (r ! j)) (abs64 (r ! i)))"
proof -
  from assms(2) consider "sorted_wrt (<) zs" | "sorted_wrt (>) zs" "zs \<noteq> []"
    by (cases "zs = []") (auto simp: strictly_monotonic_def)
  then show ?thesis
  proof cases
    case 1
    from assms(4) have "last zs - hd zs \<le> max_float" by simp
    from magnitude_on_increasing_grid[OF assms(1) 1 assms(3) this assms(5)]
    show ?thesis .
  next
    case 2
    let ?zs = "map uminus zs"
    have l: "length ?zs = length q" using assms(1) by simp
    have s: "sorted_wrt (<) ?zs" using 2(1) by (simp add: sorted_wrt_uminus)
    have d: "doubles ?zs" using assms(3) by (simp add: doubles_uminus)
    have e: "last ?zs - hd ?zs \<le> max_float"
      using assms(4) 2(2) by (simp add: last_map hd_map)
    from magnitude_on_increasing_grid[OF l s d e assms(5)] obtain r where
      r: "integrate_from_top_f64 (map Num ?zs) q = Inr r" "length r = length zs"
         "\<forall>i<length zs. \<not> isnan64 (r ! i)"
         "\<forall>i j. i \<le> j \<and> j < length zs \<longrightarrow> le64 (abs64 (r ! j)) (abs64 (r ! i))"
      by auto
    have "length (map Num ?zs) = length q" using assms(1) by simp
    from integrate_from_top_f64_uminus[OF this r(1)]
    have "integrate_from_top_f64 (map Num zs) q = Inr (map uminus r)"
      by (simp only: map_Num_uminus)
    moreover have "length (map uminus r) = length zs" using r(2) by simp
    moreover have "\<forall>i<length zs. \<not> isnan64 (map uminus r ! i)" using r(2,3) by simp
    moreover have "\<forall>i j. i \<le> j \<and> j < length zs \<longrightarrow>
        le64 (abs64 (map uminus r ! j)) (abs64 (map uminus r ! i))"
      using r(2,4) by simp
    ultimately show ?thesis by blast
  qed
qed

text \<open>
  C7 as stated fails on a decreasing grid: the top index is 0, index 2 is farther from it
  than index 0, and the magnitude falls from 4 to 0. And on the increasing grid
  \<open>[-2\<^sup>1\<^sup>0\<^sup>2\<^sup>3, 2\<^sup>1\<^sup>0\<^sup>2\<^sup>3]\<close> with the rates \<open>[0, 0]\<close> the step overflows to \<open>+inf\<close>, the area
  \<open>0 * inf\<close> is NaN, and the result is \<open>[nan, 0]\<close>: \<open>|result[1]| <= |result[0]|\<close> is false.
\<close>

theorem magnitude_counterexample:
  "top_index [Fin 4, Fin 2, Fin 0] = 0 \<and>
   integrate_from_top [Fin 4, Fin 2, Fin 0] [Fin 1, Fin 1, Fin 1] = Inr (map Fin [- 4, - 2, 0]) \<and>
   (0::nat) - top_index [Fin 4, Fin 2, Fin 0] < 2 - top_index [Fin 4, Fin 2, Fin 0] \<and>
   \<not> \<bar>[- 4, - 2, 0::real] ! 0\<bar> \<le> \<bar>[- 4, - 2, 0::real] ! 2\<bar> \<and>
   integrate_from_top_f64 [Num 4, Num 2, Num 0] [Num 1, Num 1, Num 1]
     = Inr [Num (- 4), Num (- 2), Num 0] \<and>
   \<not> le64 (abs64 ([Num (- 4), Num (- 2), Num 0] ! 0)) (abs64 ([Num (- 4), Num (- 2), Num 0] ! 2)) \<and>
   integrate_from_top_f64 [Num (- (2 powi 1023)), Num (2 powi 1023)] [Num 0, Num 0]
     = Inr [QNaN, Num 0] \<and>
   \<not> le64 (abs64 ([QNaN, Num 0] ! 1)) (abs64 ([QNaN, Num 0] ! 0))"
  by (simp add: integrate_from_top_def top_loop_Suc trapezoid_def top_index_def f64_eval
      two_powi_eval)

text \<open>The theorem at the grid \<open>[0, 1, 3]\<close> with the rates \<open>[2, 4, 6]\<close>, indices 0 and 1.\<close>

theorem integrate_from_top_f64_magnitude_witness:
  "length [0, 1, 3::real] = length [Num 2, Num 4, Num 6] \<and> strictly_monotonic [0, 1, 3] \<and>
   doubles [0, 1, 3] \<and> \<bar>last [0, 1, 3::real] - hd [0, 1, 3]\<bar> \<le> max_float \<and>
   le64 0 (Num 2) \<and> le64 0 (Num 4) \<and> le64 0 (Num 6) \<and>
   integrate_from_top_f64 (map Num [0, 1, 3]) [Num 2, Num 4, Num 6] = Inr [Num 13, Num 10, Num 0] \<and>
   \<not> isnan64 ([Num 13, Num 10, Num 0] ! 0) \<and>
   le64 (abs64 ([Num 13, Num 10, Num 0] ! 1)) (abs64 ([Num 13, Num 10, Num 0] ! 0))"
proof -
  let ?zs = "[0, 1, 3::real]" and ?q = "[Num 2, Num 4, Num 6]"
  have h1: "length ?zs = length ?q" by simp
  have h2: "strictly_monotonic ?zs" by (simp add: strictly_monotonic_def)
  have h3: "doubles ?zs" by (simp add: doubles_def del: is_float64.simps)
  have h4: "\<bar>last ?zs - hd ?zs\<bar> \<le> max_float" using max_float_ge[of 3] by (simp add: power_int_numeral)
  have p: "le64 0 (Num 2)" "le64 0 (Num 4)" "le64 0 (Num 6)" by (simp_all add: zero_float64_def)
  then have h5: "\<forall>j<length ?q. le64 0 (?q ! j)" by (simp add: All_less_Suc)
  have e: "integrate_from_top_f64 (map Num ?zs) ?q = Inr [Num 13, Num 10, Num 0]"
    by (simp add: f64_eval)
  from integrate_from_top_f64_magnitude[OF h1 h2 h3 h4 h5] obtain r where
    r: "integrate_from_top_f64 (map Num ?zs) ?q = Inr r"
       "\<forall>i<length ?zs. \<not> isnan64 (r ! i)"
       "\<forall>i j. i \<le> j \<and> j < length ?zs \<longrightarrow> le64 (abs64 (r ! j)) (abs64 (r ! i))"
    by blast
  from r(1) e have req: "r = [Num 13, Num 10, Num 0]" by simp
  from r(2)[rule_format, of 0] have n: "\<not> isnan64 (r ! 0)" by simp
  from r(3)[rule_format, of 0 1] have m: "le64 (abs64 (r ! 1)) (abs64 (r ! 0))" by simp
  from h1 h2 h3 h4 p e n m show ?thesis unfolding req by (intro conjI)
qed

section \<open>The flipped cumulative trapezoid against the backward accumulation\<close>




end
